theory Spec2Isabelle
  imports Main "HOL-Library.AList"
begin

section \<open>Strings\<close>

text \<open>
  A Python \<open>str\<close> is a sequence of Unicode code points; a code point is a natural number.
  \<open>asc\<close> turns an ASCII literal into such a string.
\<close>

type_synonym pystr = "nat list"

definition asc :: "string \<Rightarrow> pystr" where
  "asc s = map of_char s"

text \<open>
  The exceptions that the code modelled here can raise, and \<open>LibraryError\<close> for whatever
  the archive, file and XML libraries raise.
\<close>

datatype error = ValueError | IndexError | RecursionError | OverflowError | LibraryError

section \<open>The space-run collapser\<close>

text \<open>
  \<^verbatim>\<open>EXTRA_SPACE = re.compile(r"[ \u00a0]{2,}")\<close>:
  the character class holds the ASCII space (32) and the non-breaking space (160).
\<close>

definition sp_char :: "nat \<Rightarrow> bool" where
  "sp_char c = (c = 32 \<or> c = 160)"

text \<open>
  \<^verbatim>\<open>EXTRA_SPACE.subn(" ", s)\<close>: the scanner tries the pattern at each position from the
  left. The pattern matches where two class characters follow each other, and being
  greedy it takes every class character that follows; the match is replaced by one
  space and scanning goes on after it. Where it does not match, one character is
  copied. The result is the new string and the number of substitutions.
\<close>

function EXTRA_SPACE_subn :: "pystr \<Rightarrow> pystr \<times> nat" where
  "EXTRA_SPACE_subn [] = ([], 0)"
| "EXTRA_SPACE_subn [c] = ([c], 0)"
| "EXTRA_SPACE_subn (c # d # cs) =
     (if sp_char c \<and> sp_char d
      then (let (r, n) = EXTRA_SPACE_subn (dropWhile sp_char cs) in (32 # r, Suc n))
      else (let (r, n) = EXTRA_SPACE_subn (d # cs) in (c # r, n)))"
  by pat_completeness auto
termination
  by (relation "measure length") (auto simp: less_Suc_eq_le intro: le_SucI length_dropWhile_le)

text \<open>The pair of counters \<^verbatim>\<open>groups\<close>, \<^verbatim>\<open>chars\<close>.\<close>

record stats =
  groups :: int
  chars :: int

text \<open>
  \<^verbatim>\<open>
  def collapse(s):
      if not s: return s
      fixed, n = EXTRA_SPACE.subn(" ", s)
      if n: groups[0] += n; chars[0] += len(s) - len(fixed)
      return fixed
  \<close>
  \<open>collapse_str\<close> is the function on a string, \<open>collapse\<close> on a value that may be
  \<^verbatim>\<open>None\<close>.
\<close>

definition collapse_str :: "pystr \<Rightarrow> stats \<Rightarrow> pystr \<times> stats" where
  "collapse_str s st =
     (if s = [] then (s, st)
      else (let (fixed, n) = EXTRA_SPACE_subn s in
            (fixed,
             if n \<noteq> 0
             then st\<lparr>groups := groups st + int n,
                     chars := chars st + (int (length s) - int (length fixed))\<rparr>
             else st)))"

fun collapse :: "pystr option \<Rightarrow> stats \<Rightarrow> pystr option \<times> stats" where
  "collapse None st = (None, st)"
| "collapse (Some s) st = (let (fixed, st') = collapse_str s st in (Some fixed, st'))"

subsection \<open>Space runs, as the specification words them\<close>

text \<open>
  \<open>runs s\<close> cuts a string into its maximal blocks of class characters and of other
  characters. A space run is a block of two or more class characters.
\<close>

function runs :: "pystr \<Rightarrow> pystr list" where
  "runs [] = []"
| "runs (c # cs) =
     (if sp_char c
      then (c # takeWhile sp_char cs) # runs (dropWhile sp_char cs)
      else (c # takeWhile (\<lambda>x. \<not> sp_char x) cs) # runs (dropWhile (\<lambda>x. \<not> sp_char x) cs))"
  by pat_completeness auto
termination
  by (relation "measure length") (auto simp: less_Suc_eq_le intro: length_dropWhile_le)

definition space_run :: "pystr \<Rightarrow> bool" where
  "space_run r = (2 \<le> length r \<and> list_all sp_char r)"

definition spec_collapse :: "pystr \<Rightarrow> pystr" where
  "spec_collapse s = concat (map (\<lambda>r. if space_run r then [32] else r) (runs s))"

definition spec_runs_replaced :: "pystr \<Rightarrow> nat" where
  "spec_runs_replaced s = length (filter space_run (runs s))"

definition spec_chars_eliminated :: "pystr \<Rightarrow> int" where
  "spec_chars_eliminated s = (\<Sum>r\<leftarrow>filter space_run (runs s). int (length r) - 1)"


text \<open>A value on which the pattern matches nowhere.\<close>

fun collapsed_opt :: "pystr option \<Rightarrow> bool" where
  "collapsed_opt None = True"
| "collapsed_opt (Some s) = (snd (EXTRA_SPACE_subn s) = 0)"

text \<open>Neighbouring blocks are of different kinds: each block is maximal.\<close>

fun alternating :: "pystr list \<Rightarrow> bool" where
  "alternating (r1 # r2 # rs) =
     (list_all sp_char r1 \<noteq> list_all sp_char r2 \<and> alternating (r2 # rs))"
| "alternating rs = True"

section \<open>Python built-ins used by the normalizers\<close>

text \<open>
  \<^verbatim>\<open>int(s)\<close> on a string, base 10, as CPython computes it. A string that is not pure
  ASCII is first transliterated: a code point below 127 is kept, a Unicode white-space
  character becomes a space, a Unicode decimal digit becomes its ASCII digit, anything
  else becomes \<open>?\<close>. Then: ASCII white space, an optional sign, digits that single
  underscores may separate, ASCII white space, end of string. Anything else raises
  \<^verbatim>\<open>ValueError\<close>, and so do more than 4300 digits (the interpreter's default
  limit on integer strings). The tables are those of Unicode 14 (CPython 3.11).
\<close>

definition ascii_space :: "nat \<Rightarrow> bool" where
  "ascii_space c = ((9 \<le> c \<and> c \<le> 13) \<or> c = 32)"

definition unicode_space :: "nat \<Rightarrow> bool" where
  "unicode_space c =
     ((9 \<le> c \<and> c \<le> 13) \<or> (28 \<le> c \<and> c \<le> 32) \<or> c = 133 \<or> c = 160 \<or> c = 5760
      \<or> (8192 \<le> c \<and> c \<le> 8202) \<or> c = 8232 \<or> c = 8233 \<or> c = 8239 \<or> c = 8287
      \<or> c = 12288)"

definition decimal_zeros :: "nat list" where
  "decimal_zeros =
     [48, 1632, 1776, 1984, 2406, 2534, 2662, 2790, 2918, 3046, 3174, 3302, 3430, 3558,
      3664, 3792, 3872, 4160, 4240, 6112, 6160, 6470, 6608, 6784, 6800, 6992, 7088, 7232,
      7248, 42528, 43216, 43264, 43472, 43504, 43600, 44016, 65296, 66720, 68912, 69734,
      69872, 69942, 70096, 70384, 70736, 70864, 71248, 71360, 71472, 71904, 72016, 72784,
      73040, 73120, 92768, 92864, 93008, 120782, 120792, 120802, 120812, 120822, 123200,
      123632, 125264, 130032]"

definition unicode_decimal :: "nat \<Rightarrow> nat option" where
  "unicode_decimal c =
     (case find (\<lambda>z. z \<le> c \<and> c < z + 10) decimal_zeros of
        None \<Rightarrow> None
      | Some z \<Rightarrow> Some (c - z))"

definition to_ascii :: "nat \<Rightarrow> nat" where
  "to_ascii c =
     (if c < 127 then c
      else if unicode_space c then 32
      else (case unicode_decimal c of Some d \<Rightarrow> 48 + d | None \<Rightarrow> 63))"

definition ascii_digit :: "nat \<Rightarrow> bool" where
  "ascii_digit c = (48 \<le> c \<and> c \<le> 57)"

text \<open>Digits with single underscores between them: no underscore first, last or doubled.\<close>

fun digit_groups :: "pystr \<Rightarrow> bool" where
  "digit_groups [] = False"
| "digit_groups [c] = ascii_digit c"
| "digit_groups (c # d # cs) =
     (ascii_digit c \<and> (if d = 95 then digit_groups cs else digit_groups (d # cs)))"

definition py_int :: "pystr \<Rightarrow> error + int" where
  "py_int s =
     (let s1 = dropWhile ascii_space (map to_ascii s);
          (sign, s2) = (case s1 of
                          c # r \<Rightarrow> if c = 43 then (1, r) else if c = 45 then (- 1, r) else (1, s1)
                        | [] \<Rightarrow> (1, s1));
          body = takeWhile (\<lambda>c. ascii_digit c \<or> c = 95) s2;
          rest = dropWhile (\<lambda>c. ascii_digit c \<or> c = 95) s2;
          ds = filter ascii_digit body
      in if digit_groups body \<and> dropWhile ascii_space rest = [] \<and> length ds \<le> 4300
         then Inr (sign * foldl (\<lambda>a c. 10 * a + int (c - 48)) 0 ds)
         else Inl ValueError)"

text \<open>\<^verbatim>\<open>s.strip()\<close>: Unicode white space is removed at both ends.\<close>

definition py_strip :: "pystr \<Rightarrow> pystr" where
  "py_strip s = rev (dropWhile unicode_space (rev (dropWhile unicode_space s)))"

text \<open>\<^verbatim>\<open>x or ""\<close>, for a value that is \<^verbatim>\<open>None\<close> or a string.\<close>

fun or_empty :: "pystr option \<Rightarrow> pystr" where
  "or_empty None = []"
| "or_empty (Some s) = s"

section \<open>Document trees\<close>

text \<open>
  An \<^verbatim>\<open>xml.etree.ElementTree.Element\<close>: tag, attribute dictionary (in insertion order),
  text, children, and the tail text that follows the element in its parent.
\<close>

datatype elem =
  Elem (tag: pystr) (attrib: "(pystr \<times> pystr) list") (text': "pystr option")
       (children: "elem list") (tail: "pystr option")

fun set_text :: "elem \<Rightarrow> pystr option \<Rightarrow> elem" where
  "set_text (Elem tg at tx cs ta) v = Elem tg at v cs ta"

fun set_tail :: "elem \<Rightarrow> pystr option \<Rightarrow> elem" where
  "set_tail (Elem tg at tx cs ta) v = Elem tg at tx cs v"

fun set_children :: "elem \<Rightarrow> elem list \<Rightarrow> elem" where
  "set_children (Elem tg at tx cs ta) v = Elem tg at tx v ta"

fun set_attrib :: "elem \<Rightarrow> (pystr \<times> pystr) list \<Rightarrow> elem" where
  "set_attrib (Elem tg at tx cs ta) v = Elem tg v tx cs ta"

text \<open>\<^verbatim>\<open>el.get(key)\<close>\<close>

definition get :: "elem \<Rightarrow> pystr \<Rightarrow> pystr option" where
  "get el key = map_of (attrib el) key"


section \<open>Dialect B: the ODT normalizer\<close>

text \<open>
  \<^verbatim>\<open>T_S\<close>, \<^verbatim>\<open>T_P\<close>, \<^verbatim>\<open>T_C_ATTR\<close>: the qualified names of the space marker
  \<^verbatim>\<open><text:s>\<close>, the paragraph \<^verbatim>\<open><text:p>\<close> and the repeat count \<^verbatim>\<open>text:c\<close>.
\<close>


definition ODT_TEXT :: pystr where
  "ODT_TEXT = asc ''urn:oasis:names:tc:opendocument:xmlns:text:1.0''"

definition T_S :: pystr where
  "T_S = asc ''{'' @ ODT_TEXT @ asc ''}s''"

definition T_P :: pystr where
  "T_P = asc ''{'' @ ODT_TEXT @ asc ''}p''"

definition T_C_ATTR :: pystr where
  "T_C_ATTR = asc ''{'' @ ODT_TEXT @ asc ''}c''"

text \<open>
  \<^verbatim>\<open>
  raw_c = child.get(T_C_ATTR)
  count = int(raw_c) if raw_c is not None else 1
  \<close>
\<close>

definition repeat_count :: "elem \<Rightarrow> error + int" where
  "repeat_count child =
     (case get child T_C_ATTR of Some raw_c \<Rightarrow> py_int raw_c | None \<Rightarrow> Inr 1)"

text \<open>
  The part of the loop body of \<^verbatim>\<open>fix_element\<close> that follows the recursive call, for the
  child at index \<open>i\<close>:
  \<^verbatim>\<open>
  if child.tag == T_S:
      raw_c = child.get(T_C_ATTR)
      count = int(raw_c) if raw_c is not None else 1
      if count > 1:
          groups[0] += 1; chars[0] += count - 1
          to_remove.append((i, child.tail or ""))
      else:
          child.tail = collapse(child.tail)
  else:
      child.tail = collapse(child.tail)
  \<close>
  It returns the child, what it appends to \<^verbatim>\<open>to_remove\<close>, and the counters.
\<close>

definition inspect_child ::
  "nat \<Rightarrow> elem \<Rightarrow> stats \<Rightarrow> error + (elem \<times> (nat \<times> pystr) list \<times> stats)" where
  "inspect_child i child st =
     (if tag child = T_S then
        (case repeat_count child of
           Inl e \<Rightarrow> Inl e
         | Inr count \<Rightarrow>
             if count > 1
             then Inr (child, [(i, or_empty (tail child))],
                       st\<lparr>groups := groups st + 1, chars := chars st + (count - 1)\<rparr>)
             else (let (t, st') = collapse (tail child) st in Inr (set_tail child t, [], st')))
      else (let (t, st') = collapse (tail child) st in Inr (set_tail child t, [], st')))"

text \<open>
  \<^verbatim>\<open>parent.remove(parent[i])\<close>: the elements of a tree are distinct objects, so the
  child removed is the one at index \<open>i\<close>; an index out of range raises.
\<close>

definition delete_child :: "nat \<Rightarrow> elem \<Rightarrow> error + elem" where
  "delete_child i parent =
     (if i < length (children parent)
      then Inr (set_children parent (take i (children parent) @ drop (Suc i) (children parent)))
      else Inl IndexError)"

text \<open>
  The body of the removal loop, for one scheduled pair:
  \<^verbatim>\<open>
  space_plus_tail = collapse(" " + tail)
  if i == 0:
      parent.text = collapse((parent.text or "") + space_plus_tail)
  else:
      prev = parent[i - 1]
      prev.tail = collapse((prev.tail or "") + space_plus_tail)
  parent.remove(parent[i])
  \<close>
\<close>

definition remove_one :: "nat \<times> pystr \<Rightarrow> elem \<Rightarrow> stats \<Rightarrow> error + (elem \<times> stats)" where
  "remove_one r parent st =
     (case r of (i, tl_text) \<Rightarrow>
        (let (space_plus_tail, st1) = collapse_str (32 # tl_text) st in
         if i = 0 then
           (let (t, st2) = collapse_str (or_empty (text' parent) @ space_plus_tail) st1 in
            case delete_child i (set_text parent (Some t)) of
              Inl e \<Rightarrow> Inl e
            | Inr p \<Rightarrow> Inr (p, st2))
         else if i - 1 < length (children parent) then
           (let prev = children parent ! (i - 1);
                (t, st2) = collapse_str (or_empty (tail prev) @ space_plus_tail) st1
            in case delete_child i
                      (set_children parent ((children parent)[i - 1 := set_tail prev (Some t)])) of
                 Inl e \<Rightarrow> Inl e
               | Inr p \<Rightarrow> Inr (p, st2))
         else Inl IndexError))"

text \<open>\<^verbatim>\<open>for i, tail in reversed(to_remove): ...\<close>, given the reversed list.\<close>

fun remove_all :: "(nat \<times> pystr) list \<Rightarrow> elem \<Rightarrow> stats \<Rightarrow> error + (elem \<times> stats)" where
  "remove_all [] parent st = Inr (parent, st)"
| "remove_all (r # rs) parent st =
     (case remove_one r parent st of
        Inl e \<Rightarrow> Inl e
      | Inr (parent', st') \<Rightarrow> remove_all rs parent' st')"

text \<open>
  \<^verbatim>\<open>
  def fix_element(parent):
      parent.text = collapse(parent.text)
      to_remove = []
      for i, child in enumerate(parent):
          fix_element(child)
          ...
      for i, tail in reversed(to_remove):
          ...
  \<close>
  \<open>scan_children n i cs\<close> is the first loop from index \<open>i\<close> on: it returns the children as
  the loop leaves them and the pairs it has scheduled. An exception ends the run.

  The function calls itself once for every level of the tree, and the interpreter bounds
  the nesting of calls (\<^verbatim>\<open>sys.getrecursionlimit()\<close>, 1000 unless changed). The argument
  \<open>n\<close> is the number of nested calls that the interpreter still allows where
  \<^verbatim>\<open>fix_element\<close> is called. The call takes one of them, the call of \<^verbatim>\<open>collapse\<close> in
  its first line a second, and inside \<^verbatim>\<open>collapse\<close> the call of
  \<^verbatim>\<open>EXTRA_SPACE.subn\<close>, made for a string that is not empty, a third (CPython 3.11
  counts a call of a built-in method; it does not count \<^verbatim>\<open>len\<close>). Every other call
  in the body needs no more than that, and a child is visited with \<open>n - 1\<close>.
\<close>

fun fix_element :: "nat \<Rightarrow> elem \<Rightarrow> stats \<Rightarrow> error + (elem \<times> stats)"
  and scan_children ::
    "nat \<Rightarrow> nat \<Rightarrow> elem list \<Rightarrow> stats
       \<Rightarrow> error + (elem list \<times> (nat \<times> pystr) list \<times> stats)"
where
  "fix_element n (Elem tg at tx cs ta) st =
     (if n \<le> 1 then Inl RecursionError
      else if n = 2 \<and> or_empty tx \<noteq> [] then Inl RecursionError
      else (let (tx', st1) = collapse tx st in
            case scan_children (n - 1) 0 cs st1 of
              Inl e \<Rightarrow> Inl e
            | Inr (cs', to_remove, st2) \<Rightarrow>
                remove_all (rev to_remove) (Elem tg at tx' cs' ta) st2))"
| "scan_children n i [] st = Inr ([], [], st)"
| "scan_children n i (child # rest) st =
     (case fix_element n child st of
        Inl e \<Rightarrow> Inl e
      | Inr (child', st1) \<Rightarrow>
          (case inspect_child i child' st1 of
             Inl e \<Rightarrow> Inl e
           | Inr (child'', scheduled, st2) \<Rightarrow>
               (case scan_children n (Suc i) rest st2 of
                  Inl e \<Rightarrow> Inl e
                | Inr (rest', to_remove, st3) \<Rightarrow> Inr (child'' # rest', scheduled @ to_remove, st3))))"

text \<open>
  \<^verbatim>\<open>_fix_odt_xml\<close> between parsing and serialization: both counters start at zero.
  \<open>n\<close> is the number of nested calls still allowed in the body of \<^verbatim>\<open>_fix_odt_xml\<close>.
\<close>

definition fix_odt_tree :: "nat \<Rightarrow> elem \<Rightarrow> error + (elem \<times> int \<times> int)" where
  "fix_odt_tree n root =
     (case fix_element n root \<lparr>groups = 0, chars = 0\<rparr> of
        Inl e \<Rightarrow> Inl e
      | Inr (root', st) \<Rightarrow> Inr (root', groups st, chars st))"

subsection \<open>The plain-text projection\<close>

text \<open>
  \<^verbatim>\<open>
  def _collect(el):
      if el.tag == T_S:
          parts.append(" " * int(el.get(T_C_ATTR, "1")))
          if el.tail: parts.append(el.tail)
          return
      if el.text: parts.append(el.text)
      for ch in el: _collect(ch)
      if el.tail: parts.append(el.tail)
  \<close>
  \<open>collect n el\<close> is the concatenation of the parts that the call appends, where \<open>n\<close>
  nested calls are still allowed. The call takes one; \<^verbatim>\<open>el.get\<close>, \<^verbatim>\<open>int\<close>,
  \<^verbatim>\<open>parts.append\<close> and the call for a child need a second. A repeat count of
  \<open>2^63\<close> or more is no length of a string: \<^verbatim>\<open>" " * count\<close> raises
  \<^verbatim>\<open>OverflowError\<close>. (Below that bound the interpreter raises \<^verbatim>\<open>MemoryError\<close> when it
  cannot allocate the string; the model puts no bound on memory.)
\<close>

fun collect :: "nat \<Rightarrow> elem \<Rightarrow> error + pystr"
  and collect_all :: "nat \<Rightarrow> elem list \<Rightarrow> error + pystr"
where
  "collect n (Elem tg at tx cs ta) =
     (if n = 0 then Inl RecursionError
      else if tg = T_S then
        (if n = 1 then Inl RecursionError
         else (case py_int (case map_of at T_C_ATTR of Some v \<Rightarrow> v | None \<Rightarrow> asc ''1'') of
                 Inl e \<Rightarrow> Inl e
               | Inr k \<Rightarrow>
                   if 2 ^ 63 \<le> k then Inl OverflowError
                   else Inr (replicate (nat k) 32 @ or_empty ta)))
      else if n = 1 \<and> (or_empty tx \<noteq> [] \<or> cs \<noteq> [] \<or> or_empty ta \<noteq> [])
        then Inl RecursionError
      else (case collect_all (n - 1) cs of
              Inl e \<Rightarrow> Inl e
            | Inr body \<Rightarrow> Inr (or_empty tx @ body @ or_empty ta)))"
| "collect_all n [] = Inr []"
| "collect_all n (ch # rest) =
     (case collect n ch of
        Inl e \<Rightarrow> Inl e
      | Inr a \<Rightarrow> (case collect_all n rest of Inl e \<Rightarrow> Inl e | Inr b \<Rightarrow> Inr (a @ b)))"

text \<open>\<^verbatim>\<open>root.iter(t)\<close>: the elements with tag \<open>t\<close> in document order, the root included.\<close>

fun iter :: "pystr \<Rightarrow> elem \<Rightarrow> elem list" where
  "iter t (Elem tg at tx cs ta) =
     (if tg = t then [Elem tg at tx cs ta] else []) @ concat (map (iter t) cs)"

text \<open>
  One line of \<^verbatim>\<open>_plain_odt\<close>: the paragraph's text and what its children collect.
\<close>

definition para_line :: "nat \<Rightarrow> elem \<Rightarrow> error + pystr" where
  "para_line n para =
     (case collect_all n (children para) of
        Inl e \<Rightarrow> Inl e
      | Inr body \<Rightarrow> Inr (or_empty (text' para) @ body))"

text \<open>\<^verbatim>\<open>"\n".join(lines)\<close>\<close>

fun join_lines :: "pystr list \<Rightarrow> pystr" where
  "join_lines [] = []"
| "join_lines [l] = l"
| "join_lines (l # ls) = l @ 10 # join_lines ls"

fun all_lines :: "nat \<Rightarrow> elem list \<Rightarrow> error + pystr list" where
  "all_lines n [] = Inr []"
| "all_lines n (p # ps) =
     (case para_line n p of
        Inl e \<Rightarrow> Inl e
      | Inr l \<Rightarrow> (case all_lines n ps of Inl e \<Rightarrow> Inl e | Inr ls \<Rightarrow> Inr (l # ls)))"

text \<open>
  \<^verbatim>\<open>_plain_odt\<close> after parsing; \<open>n\<close> is the number of nested calls still allowed in its
  body, where the calls of \<^verbatim>\<open>join\<close> need one.
\<close>

definition plain_odt :: "nat \<Rightarrow> elem \<Rightarrow> error + pystr" where
  "plain_odt n root =
     (if n = 0 then Inl RecursionError
      else (case all_lines n (iter T_P root) of
              Inl e \<Rightarrow> Inl e
            | Inr ls \<Rightarrow> Inr (join_lines ls)))"


subsection \<open>Markers and normal forms\<close>

text \<open>
  A removable marker is a \<^verbatim>\<open>text:s\<close> element whose repeat count is an integer greater
  than one; a malformed one has a repeat count that \<^verbatim>\<open>int\<close> rejects.
\<close>

definition removable :: "elem \<Rightarrow> bool" where
  "removable c = (tag c = T_S \<and> (case repeat_count c of Inr n \<Rightarrow> n > 1 | Inl e \<Rightarrow> False))"

definition malformed :: "elem \<Rightarrow> bool" where
  "malformed c = (tag c = T_S \<and> isl (repeat_count c))"

text \<open>Some element below the root is a malformed marker.\<close>

fun has_malformed :: "elem \<Rightarrow> bool" where
  "has_malformed (Elem tg at tx cs ta) = list_ex (\<lambda>c. has_malformed c \<or> malformed c) cs"

text \<open>No element below the root is a removable marker.\<close>

fun no_marker_below :: "elem \<Rightarrow> bool" where
  "no_marker_below (Elem tg at tx cs ta) =
     list_all (\<lambda>c. \<not> removable c \<and> no_marker_below c) cs"

text \<open>
  A child that the scan keeps, with its tail collapsed; a tree in normal form: texts and
  tails collapsed and every child kept.
\<close>

definition child_ok :: "elem \<Rightarrow> bool" where
  "child_ok c = (\<not> removable c \<and> \<not> malformed c \<and> collapsed_opt (tail c))"

fun normalized :: "elem \<Rightarrow> bool" where
  "normalized (Elem tg at tx cs ta) =
     (collapsed_opt tx \<and> list_all (\<lambda>c. normalized c \<and> child_ok c) cs)"

text \<open>
  What the scan of the children schedules, counted from index \<open>i\<close>: every removable
  marker with its index and its tail.
\<close>

fun sched :: "nat \<Rightarrow> elem list \<Rightarrow> (nat \<times> pystr) list" where
  "sched i [] = []"
| "sched i (c # cs) = (if removable c then [(i, or_empty (tail c))] else []) @ sched (Suc i) cs"

text \<open>
  The nesting that a tree needs: \<open>frames e\<close> is the least \<open>n\<close> with which
  \<^verbatim>\<open>fix_element\<close> gets through \<open>e\<close>, and \<open>height e\<close> counts the levels.
\<close>

fun max_list :: "nat list \<Rightarrow> nat" where
  "max_list [] = 0"
| "max_list (x # xs) = max x (max_list xs)"

fun frames :: "elem \<Rightarrow> nat" where
  "frames (Elem tg at tx cs ta) =
     max (if or_empty tx = [] then 2 else 3) (Suc (max_list (map frames cs)))"

fun height :: "elem \<Rightarrow> nat" where
  "height (Elem tg at tx cs ta) = Suc (max_list (map height cs))"

text \<open>The place that the child at index \<open>j\<close> has among the children that stay.\<close>

definition kept_index :: "nat \<Rightarrow> elem list \<Rightarrow> nat" where
  "kept_index j cs = length (filter (\<lambda>c. \<not> removable c) (take j cs))"

subsection \<open>Dialect B, as the specification words it\<close>

text \<open>
  The specification of section 4.4, without indices. Step 1 collapses the text of the
  element. Step 2 normalizes every child and collapses the tail of each child that
  stays (\<open>scanned\<close>). Step 3 drops every removable marker and splices a space and the
  marker's tail, collapsed, into what stands immediately before the marker, the text of
  the parent or the tail of the sibling before it, which is collapsed again
  (\<open>spliced\<close>). What stands before a marker takes in only that marker (\<open>absorb\<close>); the
  children that stay are \<open>kept_children\<close>.
\<close>

definition spliced :: "pystr option \<Rightarrow> pystr \<Rightarrow> pystr option" where
  "spliced v t = Some (spec_collapse (or_empty v @ spec_collapse (32 # t)))"

fun absorb :: "pystr option \<Rightarrow> elem list \<Rightarrow> pystr option" where
  "absorb v [] = v"
| "absorb v (m # cs) = (if removable m then spliced v (or_empty (tail m)) else v)"

fun kept_children :: "elem list \<Rightarrow> elem list" where
  "kept_children [] = []"
| "kept_children (c # cs) =
     (if removable c then kept_children cs
      else set_tail c (absorb (tail c) cs) # kept_children cs)"

definition scanned :: "elem \<Rightarrow> elem" where
  "scanned c = (if removable c then c else set_tail c (map_option spec_collapse (tail c)))"

fun spec_fix :: "elem \<Rightarrow> elem" where
  "spec_fix (Elem tg at tx cs ta) =
     Elem tg at
       (absorb (map_option spec_collapse tx) (map (\<lambda>c. scanned (spec_fix c)) cs))
       (kept_children (map (\<lambda>c. scanned (spec_fix c)) cs))
       ta"

text \<open>
  The statistics, as pairs of runs collapsed and characters removed. A literal run counts
  one and its length less one (\<open>run_stats\<close>); a removable marker counts one and its
  repeat count less one when the scan meets it, a child that stays counts the runs of
  its tail (\<open>scan_stats\<close>); each removal counts the runs of the space and tail it builds
  and of the value it splices them into (\<open>removal_stats\<close>).
\<close>

definition padd :: "int \<times> int \<Rightarrow> int \<times> int \<Rightarrow> int \<times> int" where
  "padd a b = (fst a + fst b, snd a + snd b)"

fun psum :: "(int \<times> int) list \<Rightarrow> int \<times> int" where
  "psum [] = (0, 0)"
| "psum (x # xs) = padd x (psum xs)"

definition bump :: "stats \<Rightarrow> int \<times> int \<Rightarrow> stats" where
  "bump st d = st\<lparr>groups := groups st + fst d, chars := chars st + snd d\<rparr>"

definition run_stats :: "pystr \<Rightarrow> int \<times> int" where
  "run_stats s = (int (spec_runs_replaced s), spec_chars_eliminated s)"

definition scan_stats :: "elem \<Rightarrow> int \<times> int" where
  "scan_stats c =
     (if removable c
      then (case repeat_count c of Inr k \<Rightarrow> (1, k - 1) | Inl e \<Rightarrow> (0, 0))
      else run_stats (or_empty (tail c)))"

fun removal_stats :: "pystr option \<Rightarrow> elem list \<Rightarrow> int \<times> int" where
  "removal_stats v [] = (0, 0)"
| "removal_stats v (c # cs) =
     padd (if removable c
           then padd (run_stats (32 # or_empty (tail c)))
                  (run_stats (or_empty v @ spec_collapse (32 # or_empty (tail c))))
           else (0, 0))
       (removal_stats (tail c) cs)"

fun spec_stats :: "elem \<Rightarrow> int \<times> int" where
  "spec_stats (Elem tg at tx cs ta) =
     padd (run_stats (or_empty tx))
       (padd (psum (map (\<lambda>c. padd (spec_stats c) (scan_stats c)) cs))
          (removal_stats (map_option spec_collapse tx) (map (\<lambda>c. scanned (spec_fix c)) cs)))"

section \<open>Dialect A: the DOCX normalizer\<close>

definition DOCX_W :: pystr where
  "DOCX_W = asc ''http://schemas.openxmlformats.org/wordprocessingml/2006/main''"

definition W_T :: pystr where
  "W_T = asc ''{'' @ DOCX_W @ asc ''}t''"

definition XML_SPACE :: pystr where
  "XML_SPACE = asc ''{http://www.w3.org/XML/1998/namespace}space''"

text \<open>\<^verbatim>\<open>getattr(wt, attr)\<close> and \<^verbatim>\<open>setattr(wt, attr, v)\<close> for the two names the loop uses.\<close>

definition getattr :: "elem \<Rightarrow> string \<Rightarrow> pystr option" where
  "getattr wt attr = (if attr = ''text'' then text' wt else tail wt)"

definition setattr :: "elem \<Rightarrow> string \<Rightarrow> pystr option \<Rightarrow> elem" where
  "setattr wt attr v = (if attr = ''text'' then set_text wt v else set_tail wt v)"

text \<open>\<^verbatim>\<open>wt.set(key, value)\<close>: the dictionary entry is replaced in place or appended.\<close>

definition el_set :: "elem \<Rightarrow> pystr \<Rightarrow> pystr \<Rightarrow> elem" where
  "el_set wt key v = set_attrib wt (AList.update key v (attrib wt))"

text \<open>
  The body of the inner loop of \<^verbatim>\<open>_fix_docx_xml\<close>:
  \<^verbatim>\<open>
  val = getattr(wt, attr)
  if not val: continue
  fixed, n = EXTRA_SPACE.subn(" ", val)
  if n:
      groups += n; chars += len(val) - len(fixed)
      setattr(wt, attr, fixed)
      if attr == "text" and fixed != fixed.strip():
          wt.set("{http://www.w3.org/XML/1998/namespace}space", "preserve")
  \<close>
\<close>

definition fix_attr :: "string \<Rightarrow> elem \<Rightarrow> stats \<Rightarrow> elem \<times> stats" where
  "fix_attr attr wt st =
     (case getattr wt attr of
        None \<Rightarrow> (wt, st)
      | Some val \<Rightarrow>
          if val = [] then (wt, st)
          else (let (fixed, n) = EXTRA_SPACE_subn val in
                if n \<noteq> 0 then
                  (let wt' = setattr wt attr (Some fixed) in
                   (if attr = ''text'' \<and> fixed \<noteq> py_strip fixed
                    then el_set wt' XML_SPACE (asc ''preserve'')
                    else wt',
                    st\<lparr>groups := groups st + int n,
                       chars := chars st + (int (length val) - int (length fixed))\<rparr>))
                else (wt, st)))"

text \<open>\<^verbatim>\<open>for attr in ("text", "tail"): ...\<close>\<close>

definition fix_wt :: "elem \<Rightarrow> stats \<Rightarrow> elem \<times> stats" where
  "fix_wt wt st = (let (wt1, st1) = fix_attr ''text'' wt st in fix_attr ''tail'' wt1 st1)"

text \<open>
  \<^verbatim>\<open>for wt in root.iter(W_T): ...\<close>: the walk visits the elements in document order and
  the loop body runs on those tagged \<^verbatim>\<open>w:t\<close>; it changes no child list.
\<close>

fun fix_docx_walk :: "elem \<Rightarrow> stats \<Rightarrow> elem \<times> stats"
  and fix_docx_walk_all :: "elem list \<Rightarrow> stats \<Rightarrow> elem list \<times> stats"
where
  "fix_docx_walk (Elem tg at tx cs ta) st =
     (let (el, st1) = (if tg = W_T then fix_wt (Elem tg at tx cs ta) st
                       else (Elem tg at tx cs ta, st));
          (cs', st2) = fix_docx_walk_all cs st1
      in (set_children el cs', st2))"
| "fix_docx_walk_all [] st = ([], st)"
| "fix_docx_walk_all (c # cs) st =
     (let (c', st1) = fix_docx_walk c st;
          (cs', st2) = fix_docx_walk_all cs st1
      in (c' # cs', st2))"

text \<open>\<^verbatim>\<open>_fix_docx_xml\<close> between parsing and serialization.\<close>

definition fix_docx_tree :: "elem \<Rightarrow> elem \<times> int \<times> int" where
  "fix_docx_tree root =
     (let (root', st) = fix_docx_walk root \<lparr>groups = 0, chars = 0\<rparr>
      in (root', groups st, chars st))"


subsection \<open>Dialect A, as the specification words it\<close>

text \<open>
  A text node needs the flag when collapsing changes its own text and the collapsed
  text differs from its trimmed form.
\<close>

definition needs_preserve :: "elem \<Rightarrow> bool" where
  "needs_preserve wt =
     (case text' wt of
        None \<Rightarrow> False
      | Some v \<Rightarrow> spec_collapse v \<noteq> v \<and> spec_collapse v \<noteq> py_strip (spec_collapse v))"

text \<open>
  Every text-bearing node has its text and its tail collapsed and gets the flag when
  it needs it; nothing else changes and no element is added or removed.
\<close>

fun spec_fix_node :: "elem \<Rightarrow> elem" where
  "spec_fix_node (Elem tg at tx cs ta) =
     Elem tg
       (if needs_preserve (Elem tg at tx cs ta)
        then AList.update XML_SPACE (asc ''preserve'') at else at)
       (map_option spec_collapse tx) cs (map_option spec_collapse ta)"

fun spec_fix_docx :: "elem \<Rightarrow> elem" where
  "spec_fix_docx (Elem tg at tx cs ta) =
     set_children
       (if tg = W_T then spec_fix_node (Elem tg at tx cs ta) else Elem tg at tx cs ta)
       (map spec_fix_docx cs)"

text \<open>A tree whose text-bearing nodes hold collapsed text and tail.\<close>

fun docx_clean :: "elem \<Rightarrow> bool" where
  "docx_clean (Elem tg at tx cs ta) =
     ((tg = W_T \<longrightarrow> collapsed_opt tx \<and> collapsed_opt ta) \<and> list_all docx_clean cs)"

section \<open>Dispatch on the file extension\<close>

text \<open>
  \<^verbatim>\<open>os.path.splitext(p)[1]\<close>. The extension starts at the last dot, if that dot comes
  after the last separator and some character between the two is not a dot; otherwise
  it is empty. The separator is \<open>/\<close>, on Windows also the backslash.
\<close>

datatype platform = Posix | Windows

fun is_sep :: "platform \<Rightarrow> nat \<Rightarrow> bool" where
  "is_sep Posix c = (c = 47)"
| "is_sep Windows c = (c = 92 \<or> c = 47)"

text \<open>\<^verbatim>\<open>p.rfind(...)\<close>: the last index of a matching character, or \<open>-1\<close>.\<close>

fun rfind_from :: "(nat \<Rightarrow> bool) \<Rightarrow> int \<Rightarrow> int \<Rightarrow> pystr \<Rightarrow> int" where
  "rfind_from P i found [] = found"
| "rfind_from P i found (c # cs) = rfind_from P (i + 1) (if P c then i else found) cs"

definition rfind :: "(nat \<Rightarrow> bool) \<Rightarrow> pystr \<Rightarrow> int" where
  "rfind P p = rfind_from P 0 (- 1) p"

definition splitext_ext :: "platform \<Rightarrow> pystr \<Rightarrow> pystr" where
  "splitext_ext pf p =
     (let sepIndex = rfind (is_sep pf) p;
          dotIndex = rfind (\<lambda>c. c = 46) p
      in if dotIndex > sepIndex
            \<and> list_ex (\<lambda>c. c \<noteq> 46) (take (nat (dotIndex - (sepIndex + 1))) (drop (nat (sepIndex + 1)) p))
         then drop (nat dotIndex) p
         else [])"

text \<open>
  \<^verbatim>\<open>s.lower()\<close>: on an ASCII string the letters A to Z are lowered. On any other
  string the interpreter applies the Unicode case tables, which are not part of this
  program: \<open>do_lower\<close> stands for that mapping.
\<close>

definition ascii_lower :: "nat \<Rightarrow> nat" where
  "ascii_lower c = (if 65 \<le> c \<and> c \<le> 90 then c + 32 else c)"

definition py_lower :: "(pystr \<Rightarrow> pystr) \<Rightarrow> pystr \<Rightarrow> pystr" where
  "py_lower do_lower s = (if list_all (\<lambda>c. c < 128) s then map ascii_lower s else do_lower s)"

text \<open>
  \<^verbatim>\<open>
  def fix_file(inp, out):
      ext = os.path.splitext(inp)[1].lower()
      if ext == ".docx": return fix_docx(inp, out)
      if ext == ".odt":  return fix_odt(inp, out)
      raise ValueError(f"Unsupported type: {ext}  (use .docx or .odt)")
  \<close>
  The two archive pipelines read and write files; they are parameters here, functions
  of the two paths on the state \<open>'w\<close> of the file system.
\<close>

definition fix_file ::
  "platform \<Rightarrow> (pystr \<Rightarrow> pystr)
     \<Rightarrow> (pystr \<Rightarrow> pystr \<Rightarrow> 'w \<Rightarrow> (error + 'r) \<times> 'w)
     \<Rightarrow> (pystr \<Rightarrow> pystr \<Rightarrow> 'w \<Rightarrow> (error + 'r) \<times> 'w)
     \<Rightarrow> pystr \<Rightarrow> pystr \<Rightarrow> 'w \<Rightarrow> (error + 'r) \<times> 'w" where
  "fix_file pf do_lower fix_docx fix_odt inp out w =
     (let ext = py_lower do_lower (splitext_ext pf inp) in
      if ext = asc ''.docx'' then fix_docx inp out w
      else if ext = asc ''.odt'' then fix_odt inp out w
      else (Inl ValueError, w))"

section \<open>Example inputs\<close>

text \<open>\<^verbatim>\<open>"a  b " + nbsp + " " + nbsp + "c d"\<close>: a run of two and a mixed run of four.\<close>

definition ex_mixed_runs :: pystr where
  "ex_mixed_runs = asc ''a  b '' @ [160, 32, 160] @ asc ''c d''"

text \<open>Text nodes of a DOCX tree: leading spaces, a change in the tail only, an inner run only.\<close>

definition ex_wt_lead :: elem where
  "ex_wt_lead = Elem W_T [] (Some (asc ''  a   b'')) [] (Some (asc ''c   ''))"

definition ex_wt_tail_only :: elem where
  "ex_wt_tail_only = Elem W_T [] (Some (asc '' a b'')) [] (Some (asc ''    x''))"

definition ex_wt_inner :: elem where
  "ex_wt_inner = Elem W_T [] (Some (asc ''a   b'')) [] None"

text \<open>
  ODT trees, built as the self-test builds them: a root \<^verbatim>\<open><r>\<close>, paragraphs, markers
  with a repeat count.
\<close>

definition ex_root :: "elem list \<Rightarrow> elem" where
  "ex_root cs = Elem (asc ''r'') [] None cs None"

definition para :: "string \<Rightarrow> elem list \<Rightarrow> elem" where
  "para tx cs = Elem T_P [] (Some (asc tx)) cs None"

definition marker :: "string \<Rightarrow> string \<Rightarrow> elem" where
  "marker c ta = Elem T_S [(T_C_ATTR, asc c)] None [] (Some (asc ta))"

text \<open>\<^verbatim>\<open><text:p>cheers<text:s text:c="5"/>   erupting</text:p>\<close>, and its normal form.\<close>

definition ex_count5_tail3 :: elem where
  "ex_count5_tail3 = ex_root [para ''cheers'' [marker ''5'' ''   erupting'']]"

definition ex_count5_tail3_fixed :: elem where
  "ex_count5_tail3_fixed = ex_root [para ''cheers erupting'' []]"

text \<open>
  \<^verbatim>\<open><text:p>Hello <text:s text:c="2"/>world <text:s text:c="3"/>again</text:p>\<close>:
  two removable markers that are neighbours. The second tree is what the normalizer
  makes of it.
\<close>

definition ex_adjacent :: elem where
  "ex_adjacent = ex_root [para ''Hello '' [marker ''2'' ''world '', marker ''3'' ''again'']]"

definition ex_adjacent_fixed :: elem where
  "ex_adjacent_fixed = ex_root [para ''Hello world '' []]"

text \<open>\<^verbatim>\<open><text:p>cheers<text:s text:c="abc"/>erupting</text:p>\<close>\<close>

definition ex_malformed :: elem where
  "ex_malformed = ex_root [para ''cheers'' [marker ''abc'' ''erupting'']]"

text \<open>\<^verbatim>\<open><text:p>a<text:s/>  b</text:p>\<close>: a marker without a repeat count.\<close>

definition ex_no_count :: elem where
  "ex_no_count = ex_root [para ''a'' [Elem T_S [] None [] (Some (asc ''  b''))]]"

definition ex_no_count_fixed :: elem where
  "ex_no_count_fixed = ex_root [para ''a'' [Elem T_S [] None [] (Some (asc '' b''))]]"

text \<open>
  \<^verbatim>\<open><text:p><text:span>cheers</text:span><text:s text:c="3"/>erupting</text:p>\<close>:
  a marker after a styled span.
\<close>

definition ex_span_marker :: elem where
  "ex_span_marker =
     ex_root [Elem T_P [] None
                [Elem (asc ''span'') [] (Some (asc ''cheers'')) [] None, marker ''3'' ''erupting'']
                None]"

definition ex_span_marker_fixed :: elem where
  "ex_span_marker_fixed =
     ex_root [Elem T_P [] None
                [Elem (asc ''span'') [] (Some (asc ''cheers'')) [] (Some (asc '' erupting''))]
                None]"

text \<open>The paragraph of the last tree, and its marker.\<close>

definition ex_marker_no_count :: elem where
  "ex_marker_no_count = Elem T_S [] None [] (Some (asc ''  b''))"

definition ex_para_no_count :: elem where
  "ex_para_no_count = para ''a'' [ex_marker_no_count]"

text \<open>The paragraph of the first of these trees, and what the normalizer makes of it.\<close>

definition ex_para_count5 :: elem where
  "ex_para_count5 = para ''cheers'' [marker ''5'' ''   erupting'']"

definition ex_para_count5_fixed :: elem where
  "ex_para_count5_fixed = para ''cheers erupting'' []"

text \<open>The characters of a projection that are not white space.\<close>

definition non_ws :: "pystr \<Rightarrow> pystr" where
  "non_ws s = filter (\<lambda>c. \<not> unicode_space c) s"

text \<open>The two counters that a run reports, if it returns.\<close>

fun reported :: "error + (elem \<times> int \<times> int) \<Rightarrow> (int \<times> int) option" where
  "reported (Inl e) = None"
| "reported (Inr (root, g, c)) = Some (g, c)"

section \<open>The collapser meets its specification\<close>

lemma runs_concat: "concat (runs s) = s"
  by (induction s rule: runs.induct) auto

lemma runs_blocks:
  "r \<in> set (runs s) \<Longrightarrow> r \<noteq> [] \<and> (list_all sp_char r \<or> list_all (\<lambda>c. \<not> sp_char c) r)"
proof (induction s rule: runs.induct)
  case 1
  then show ?case by simp
next
  case (2 c cs)
  show ?case
  proof (cases "sp_char c")
    case True
    have "list_all sp_char (c # takeWhile sp_char cs)"
      using True by (auto simp: list_all_iff dest: set_takeWhileD)
    with 2 True show ?thesis by auto
  next
    case False
    have "list_all (\<lambda>c. \<not> sp_char c) (c # takeWhile (\<lambda>x. \<not> sp_char x) cs)"
      using False by (auto simp: list_all_iff dest: set_takeWhileD)
    with 2 False show ?thesis by auto
  qed
qed

lemma runs_head:
  "runs (c # cs) = r # rs \<Longrightarrow> list_all sp_char r = sp_char c"
  by (cases "sp_char c") (auto simp: list_all_iff dest: set_takeWhileD)
lemma runs_alternating: "alternating (runs s)"
proof (induction s rule: runs.induct)
  case 1
  show ?case by simp
next
  case (2 c cs)
  show ?case
  proof (cases "sp_char c")
    case True
    let ?rest = "dropWhile sp_char cs"
    have alt: "alternating (runs ?rest)" using 2 True by simp
    show ?thesis
    proof (cases ?rest)
      case Nil
      show ?thesis by (simp only: runs.simps True Nil if_True alternating.simps)
    next
      case (Cons d ds)
      then have "\<not> sp_char d" by (metis hd_dropWhile list.sel(1) list.distinct(1))
      moreover obtain r rs where rr: "runs (d # ds) = r # rs" by (cases "runs (d # ds)") (auto split: if_splits)
      ultimately have "\<not> list_all sp_char r" using runs_head [OF rr] by simp
      moreover have "list_all sp_char (c # takeWhile sp_char cs)"
        using True by (auto simp: list_all_iff dest: set_takeWhileD)
      ultimately show ?thesis using True alt Cons rr by simp
    qed
  next
    case False
    let ?rest = "dropWhile (\<lambda>x. \<not> sp_char x) cs"
    have alt: "alternating (runs ?rest)" using 2 False by simp
    show ?thesis
    proof (cases ?rest)
      case Nil
      show ?thesis by (simp only: runs.simps False Nil if_False alternating.simps)
    next
      case (Cons d ds)
      then have "sp_char d" by (metis (mono_tags, lifting) hd_dropWhile list.sel(1) list.distinct(1))
      moreover obtain r rs where rr: "runs (d # ds) = r # rs" by (cases "runs (d # ds)") (auto split: if_splits)
      ultimately have "list_all sp_char r" using runs_head [OF rr] by simp
      moreover have "\<not> list_all sp_char (c # takeWhile (\<lambda>x. \<not> sp_char x) cs)"
        using False by simp
      ultimately show ?thesis using False alt Cons rr by simp
    qed
  qed
qed

lemma spec_nonsp_Cons:
  assumes "\<not> sp_char c"
  shows "spec_collapse (c # xs) = c # spec_collapse xs"
    and "spec_runs_replaced (c # xs) = spec_runs_replaced xs"
  using assms
  by (cases xs; auto simp: spec_collapse_def spec_runs_replaced_def space_run_def)+

lemma spec_single_sp:
  assumes "\<not> sp_char d"
  shows "spec_collapse (c # d # xs) = c # spec_collapse (d # xs)"
    and "spec_runs_replaced (c # d # xs) = spec_runs_replaced (d # xs)"
  using assms
  by (cases "sp_char c"; auto simp: spec_collapse_def spec_runs_replaced_def space_run_def)+

lemma subn_spec: "EXTRA_SPACE_subn s = (spec_collapse s, spec_runs_replaced s)"
proof (induction s rule: EXTRA_SPACE_subn.induct)
  case 1
  then show ?case by (simp add: spec_collapse_def spec_runs_replaced_def)
next
  case (2 c)
  then show ?case by (simp add: spec_collapse_def spec_runs_replaced_def space_run_def)
next
  case (3 c d cs)
  show ?case
  proof (cases "sp_char c \<and> sp_char d")
    case True
    moreover have "list_all sp_char (takeWhile sp_char cs)"
      by (auto simp: list_all_iff dest: set_takeWhileD)
    ultimately show ?thesis using 3
      by (simp add: spec_collapse_def spec_runs_replaced_def space_run_def)
  next
    case False
    show ?thesis
    proof (cases "sp_char c")
      case True
      with False have "\<not> sp_char d" by simp
      with 3 False show ?thesis by (simp add: spec_single_sp)
    next
      case False
      with 3 show ?thesis by (simp add: spec_nonsp_Cons)
    qed
  qed
qed

lemma length_diff_runs:
  "int (length (concat rs)) - int (length (concat (map (\<lambda>r. if space_run r then [32] else r) rs)))
     = (\<Sum>r\<leftarrow>filter space_run rs. int (length r) - 1)"
  by (induction rs) auto

lemma chars_eliminated:
  "int (length s) - int (length (spec_collapse s)) = spec_chars_eliminated s"
  using length_diff_runs [of "runs s"]
  by (simp add: runs_concat spec_collapse_def spec_chars_eliminated_def)

lemma no_runs_no_chars: "spec_runs_replaced s = 0 \<Longrightarrow> spec_chars_eliminated s = 0"
  by (simp add: spec_runs_replaced_def spec_chars_eliminated_def)

lemma collapse_str_spec:
  "collapse_str s st =
     (spec_collapse s,
      st\<lparr>groups := groups st + int (spec_runs_replaced s),
         chars := chars st + spec_chars_eliminated s\<rparr>)"
proof (cases "s = []")
  case True
  then show ?thesis
    by (simp add: collapse_str_def spec_collapse_def spec_runs_replaced_def spec_chars_eliminated_def)
next
  case False
  then show ?thesis
    by (auto simp: collapse_str_def subn_spec chars_eliminated no_runs_no_chars)
qed

text \<open>
  Claim C3. For every string, \<open>runs\<close> cuts it into maximal blocks, and the substitution
  \<^verbatim>\<open>EXTRA_SPACE.subn(" ", s)\<close> replaces each block of two or more space or no-break
  space characters by one ASCII space and leaves every other block, a single such
  character included, as it is. It reports the number of blocks replaced, and the
  string loses the sum over these blocks of their length minus one. \<^verbatim>\<open>collapse\<close>
  returns an absent or empty string unchanged and leaves the counters alone; on any
  string it adds exactly these two numbers to the counters.
\<close>

theorem C3_space_run_collapser:
  "concat (runs s) = s
   \<and> (\<forall>r \<in> set (runs s). r \<noteq> [] \<and> (list_all sp_char r \<or> list_all (\<lambda>c. \<not> sp_char c) r))
   \<and> alternating (runs s)
   \<and> EXTRA_SPACE_subn s = (spec_collapse s, spec_runs_replaced s)
   \<and> int (length s) - int (length (fst (EXTRA_SPACE_subn s))) = spec_chars_eliminated s
   \<and> collapse None st = (None, st)
   \<and> collapse (Some []) st = (Some [], st)
   \<and> collapse (Some s) st =
       (Some (spec_collapse s),
        st\<lparr>groups := groups st + int (spec_runs_replaced s),
           chars := chars st + spec_chars_eliminated s\<rparr>)"
proof -
  have "collapse (Some []) st = (Some [], st)"
    by (simp add: collapse_str_def)
  then show ?thesis
    using runs_blocks [of _ s]
    by (simp add: runs_concat runs_alternating subn_spec chars_eliminated collapse_str_spec)
qed

lemma C3_witness_aux: "runs ex_mixed_runs = [asc ''a'', asc ''  '', asc ''b'', [32, 160, 32, 160], asc ''c'', asc '' '', asc ''d'']"
  by (simp add: ex_mixed_runs_def asc_def sp_char_def)

theorem C3_space_run_collapser_witness:
  "runs ex_mixed_runs = [asc ''a'', asc ''  '', asc ''b'', [32, 160, 32, 160], asc ''c'', asc '' '', asc ''d'']
   \<and> EXTRA_SPACE_subn ex_mixed_runs = (asc ''a b c d'', 2)
   \<and> collapse (Some ex_mixed_runs) \<lparr>groups = 0, chars = 0\<rparr> = (Some (asc ''a b c d''), \<lparr>groups = 2, chars = 4\<rparr>)"
  using C3_space_run_collapser [of ex_mixed_runs "\<lparr>groups = 0, chars = 0\<rparr>"]
  by (simp add: C3_witness_aux spec_collapse_def spec_runs_replaced_def spec_chars_eliminated_def
      space_run_def asc_def sp_char_def)

subsection \<open>Collapsing once is enough\<close>

lemma subn_length: "length (fst (EXTRA_SPACE_subn s)) + snd (EXTRA_SPACE_subn s) \<le> length s"
proof (induction s rule: EXTRA_SPACE_subn.induct)
  case (3 c d cs)
  have "length (dropWhile sp_char cs) \<le> length cs" by (rule length_dropWhile_le)
  with 3 show ?case by (auto split: prod.splits)
qed simp_all

lemma subn_changed: "snd (EXTRA_SPACE_subn s) \<noteq> 0 \<Longrightarrow> fst (EXTRA_SPACE_subn s) \<noteq> s"
  using subn_length [of s] by auto

lemma subn_zero_id: "snd (EXTRA_SPACE_subn s) = 0 \<Longrightarrow> fst (EXTRA_SPACE_subn s) = s"
  by (induction s rule: EXTRA_SPACE_subn.induct) (auto split: prod.splits if_splits)

lemma subn_changed_iff: "fst (EXTRA_SPACE_subn s) \<noteq> s \<longleftrightarrow> snd (EXTRA_SPACE_subn s) \<noteq> 0"
  using subn_changed subn_zero_id by blast

lemma subn_keeps_head:
  "\<not> sp_char x \<Longrightarrow> \<exists>r. fst (EXTRA_SPACE_subn (x # xs)) = x # r"
  by (cases xs) (auto split: prod.splits)

lemma subn_idem: "EXTRA_SPACE_subn (fst (EXTRA_SPACE_subn s)) = (fst (EXTRA_SPACE_subn s), 0)"
proof (induction s rule: EXTRA_SPACE_subn.induct)
  case 1
  show ?case by simp
next
  case (2 c)
  show ?case by simp
next
  case (3 c d cs)
  show ?case
  proof (cases "sp_char c \<and> sp_char d")
    case True
    let ?rest = "dropWhile sp_char cs"
    obtain r n where rn: "EXTRA_SPACE_subn ?rest = (r, n)" by (cases "EXTRA_SPACE_subn ?rest")
    with 3 True have ih: "EXTRA_SPACE_subn r = (r, 0)" by simp
    have res: "fst (EXTRA_SPACE_subn (c # d # cs)) = 32 # r" using True rn by simp
    show ?thesis
    proof (cases ?rest)
      case Nil
      with rn have "r = []" by simp
      with res show ?thesis by simp
    next
      case (Cons x xs)
      then have nx: "\<not> sp_char x" by (metis hd_dropWhile list.sel(1) list.distinct(1))
      from subn_keeps_head [OF nx, of xs] rn Cons obtain r' where "r = x # r'" by auto
      with ih nx res show ?thesis by simp
    qed
  next
    case False
    obtain r n where rn: "EXTRA_SPACE_subn (d # cs) = (r, n)" by (cases "EXTRA_SPACE_subn (d # cs)")
    with 3 False have ih: "EXTRA_SPACE_subn r = (r, 0)" by simp
    have res: "fst (EXTRA_SPACE_subn (c # d # cs)) = c # r" using False rn by auto
    have "\<exists>r'. r = (if sp_char d \<and> cs \<noteq> [] \<and> sp_char (hd cs) then 32 else d) # r'"
      using rn by (cases cs) (auto split: prod.splits if_splits)
    then obtain r' where r': "r = (if sp_char d \<and> cs \<noteq> [] \<and> sp_char (hd cs) then 32 else d) # r'" ..
    show ?thesis
    proof (cases "sp_char c")
      case True
      with False have "\<not> sp_char d" by simp
      with r' have "r = d # r'" by simp
      with ih res \<open>\<not> sp_char d\<close> show ?thesis by simp
    next
      case False
      with r' ih res show ?thesis by (auto split: if_splits)
    qed
  qed
qed

section \<open>Dialect A\<close>

lemma collapse_eq:
  "collapse v st =
     (map_option spec_collapse v,
      st\<lparr>groups := groups st + int (case v of None \<Rightarrow> 0 | Some s \<Rightarrow> spec_runs_replaced s),
         chars := chars st + (case v of None \<Rightarrow> 0 | Some s \<Rightarrow> spec_chars_eliminated s)\<rparr>)"
  by (cases v) (simp_all add: collapse_str_spec)

lemma collapse_str_collapsed:
  "snd (EXTRA_SPACE_subn s) = 0 \<Longrightarrow> collapse_str s st = (s, st)"
  using subn_zero_id [of s] by (cases "EXTRA_SPACE_subn s") (simp add: collapse_str_def)

lemma collapse_collapsed: "collapsed_opt v \<Longrightarrow> collapse v st = (v, st)"
  by (cases v) (simp_all add: collapse_str_collapsed)

lemma collapsed_spec_collapse: "collapsed_opt (map_option spec_collapse v)"
  using subn_idem by (cases v) (simp_all add: subn_spec)

lemma fix_attr_collapsed: "collapsed_opt (getattr wt attr) \<Longrightarrow> fix_attr attr wt st = (wt, st)"
  by (cases "getattr wt attr") (auto simp: fix_attr_def split: prod.splits)

lemma fix_attr_text:
  "fix_attr ''text'' (Elem tg at tx cs ta) st =
     (Elem tg (if needs_preserve (Elem tg at tx cs ta)
               then AList.update XML_SPACE (asc ''preserve'') at else at)
        (map_option spec_collapse tx) cs ta,
      snd (collapse tx st))"
proof (cases tx)
  case None
  then show ?thesis by (simp add: fix_attr_def getattr_def needs_preserve_def)
next
  case (Some v)
  show ?thesis
  proof (cases "spec_runs_replaced v = 0")
    case True
    then have "spec_collapse v = v" using subn_zero_id [of v] by (simp add: subn_spec)
    with True Some show ?thesis
      by (simp add: fix_attr_def getattr_def needs_preserve_def subn_spec collapse_str_def)
  next
    case False
    then have "spec_collapse v \<noteq> v" using subn_changed [of v] by (simp add: subn_spec)
    moreover from False have "v \<noteq> []" by (auto simp: spec_runs_replaced_def)
    ultimately show ?thesis using False Some
      by (simp add: fix_attr_def getattr_def setattr_def el_set_def needs_preserve_def subn_spec
          collapse_str_def)
  qed
qed

lemma fix_attr_tail:
  "fix_attr ''tail'' (Elem tg at tx cs ta) st =
     (Elem tg at tx cs (map_option spec_collapse ta), snd (collapse ta st))"
proof (cases ta)
  case None
  then show ?thesis by (simp add: fix_attr_def getattr_def)
next
  case (Some v)
  show ?thesis
  proof (cases "spec_runs_replaced v = 0")
    case True
    then have "spec_collapse v = v" using subn_zero_id [of v] by (simp add: subn_spec)
    with True Some show ?thesis
      by (simp add: fix_attr_def getattr_def subn_spec collapse_str_def)
  next
    case False
    then have "v \<noteq> []" by (auto simp: spec_runs_replaced_def)
    then show ?thesis using False Some
      by (simp add: fix_attr_def getattr_def setattr_def subn_spec collapse_str_def)
  qed
qed

lemma fix_wt_eq:
  "fix_wt (Elem tg at tx cs ta) st =
     (spec_fix_node (Elem tg at tx cs ta), snd (collapse ta (snd (collapse tx st))))"
  by (simp add: fix_wt_def fix_attr_text fix_attr_tail)

lemma fix_docx_walk_spec:
  "fst (fix_docx_walk e st) = spec_fix_docx e"
  "fst (fix_docx_walk_all es st) = map spec_fix_docx es"
  by (induction e st and es st rule: fix_docx_walk_fix_docx_walk_all.induct)
     (auto simp: fix_wt_eq split: prod.splits)

lemma docx_clean_spec: "docx_clean (spec_fix_docx e)"
  by (induction e rule: spec_fix_docx.induct) (auto simp: list_all_iff collapsed_spec_collapse)

lemma fix_wt_clean:
  "collapsed_opt tx \<Longrightarrow> collapsed_opt ta \<Longrightarrow> fix_wt (Elem tg at tx cs ta) st = (Elem tg at tx cs ta, st)"
  by (simp add: fix_wt_def fix_attr_collapsed getattr_def)

lemma fix_docx_walk_clean:
  "docx_clean e \<Longrightarrow> fix_docx_walk e st = (e, st)"
  "list_all docx_clean es \<Longrightarrow> fix_docx_walk_all es st = (es, st)"
  by (induction e st and es st rule: fix_docx_walk_fix_docx_walk_all.induct)
     (auto simp: fix_wt_clean)

lemma fix_docx_walk_idem:
  "fix_docx_walk (fst (fix_docx_walk e st)) st2 = (fst (fix_docx_walk e st), st2)"
  by (simp add: fix_docx_walk_spec fix_docx_walk_clean docx_clean_spec)

text \<open>
  Claim C6. The loop body leaves a text node with its text and its tail collapsed, and
  with the attribute \<^verbatim>\<open>xml:space="preserve"\<close> set exactly when the node's own text has
  changed and the new text differs from its trimmed form; otherwise the attributes are
  those of the input. In particular a node whose text is unchanged keeps its
  attributes, whatever happens to its tail. Over a whole tree the walk computes
  \<open>spec_fix_docx\<close>, which does this at every text-bearing node and nothing else.
\<close>

theorem C6_preserve_flag:
  "text' (fst (fix_wt wt st)) = map_option spec_collapse (text' wt)
   \<and> tail (fst (fix_wt wt st)) = map_option spec_collapse (tail wt)
   \<and> attrib (fst (fix_wt wt st)) =
       (if text' (fst (fix_wt wt st)) \<noteq> text' wt
           \<and> or_empty (text' (fst (fix_wt wt st))) \<noteq> py_strip (or_empty (text' (fst (fix_wt wt st))))
        then AList.update XML_SPACE (asc ''preserve'') (attrib wt)
        else attrib wt)
   \<and> (text' (fst (fix_wt wt st)) = text' wt \<longrightarrow> attrib (fst (fix_wt wt st)) = attrib wt)
   \<and> fst (fix_docx_walk root st) = spec_fix_docx root"
proof (cases wt)
  case (Elem tg at tx cs ta)
  have "attrib (fst (fix_wt wt st)) =
       (if text' (fst (fix_wt wt st)) \<noteq> text' wt
           \<and> or_empty (text' (fst (fix_wt wt st))) \<noteq> py_strip (or_empty (text' (fst (fix_wt wt st))))
        then AList.update XML_SPACE (asc ''preserve'') (attrib wt)
        else attrib wt)"
    using Elem by (cases tx) (auto simp: fix_wt_eq needs_preserve_def)
  moreover have "text' (fst (fix_wt wt st)) = map_option spec_collapse (text' wt)"
    and "tail (fst (fix_wt wt st)) = map_option spec_collapse (tail wt)"
    using Elem by (simp_all add: fix_wt_eq)
  ultimately show ?thesis
    by (simp add: fix_docx_walk_spec)
qed

theorem C6_preserve_flag_witness:
  "text' (fst (fix_wt ex_wt_tail_only \<lparr>groups = 0, chars = 0\<rparr>)) = text' ex_wt_tail_only
   \<and> tail (fst (fix_wt ex_wt_tail_only \<lparr>groups = 0, chars = 0\<rparr>)) \<noteq> tail ex_wt_tail_only
   \<and> attrib (fst (fix_wt ex_wt_tail_only \<lparr>groups = 0, chars = 0\<rparr>)) = attrib ex_wt_tail_only
   \<and> fst (fix_wt ex_wt_lead \<lparr>groups = 0, chars = 0\<rparr>)
       = Elem W_T [(XML_SPACE, asc ''preserve'')] (Some (asc '' a b'')) [] (Some (asc ''c ''))
   \<and> fst (fix_wt ex_wt_inner \<lparr>groups = 0, chars = 0\<rparr>)
       = Elem W_T [] (Some (asc ''a b'')) [] None"
proof -
  have e1: "fst (fix_wt ex_wt_lead \<lparr>groups = 0, chars = 0\<rparr>)
     = Elem W_T [(XML_SPACE, asc ''preserve'')] (Some (asc '' a b'')) [] (Some (asc ''c ''))"
    by (simp add: ex_wt_lead_def fix_wt_def fix_attr_def getattr_def setattr_def el_set_def
        py_strip_def unicode_space_def asc_def sp_char_def)
  have e2: "fst (fix_wt ex_wt_tail_only \<lparr>groups = 0, chars = 0\<rparr>)
     = Elem W_T [] (Some (asc '' a b'')) [] (Some (asc '' x''))"
    by (simp add: ex_wt_tail_only_def fix_wt_def fix_attr_def getattr_def setattr_def el_set_def
        py_strip_def unicode_space_def asc_def sp_char_def)
  have e3: "fst (fix_wt ex_wt_inner \<lparr>groups = 0, chars = 0\<rparr>)
     = Elem W_T [] (Some (asc ''a b'')) [] None"
    by (simp add: ex_wt_inner_def fix_wt_def fix_attr_def getattr_def setattr_def el_set_def
        py_strip_def unicode_space_def asc_def sp_char_def)
  have same_text:
    "text' (fst (fix_wt ex_wt_tail_only \<lparr>groups = 0, chars = 0\<rparr>)) = text' ex_wt_tail_only"
    unfolding e2 by (simp add: ex_wt_tail_only_def)
  have other_tail:
    "tail (fst (fix_wt ex_wt_tail_only \<lparr>groups = 0, chars = 0\<rparr>)) \<noteq> tail ex_wt_tail_only"
    unfolding e2 by (simp add: ex_wt_tail_only_def asc_def)
  have "attrib (fst (fix_wt ex_wt_tail_only \<lparr>groups = 0, chars = 0\<rparr>)) = attrib ex_wt_tail_only"
    using C6_preserve_flag [of ex_wt_tail_only "\<lparr>groups = 0, chars = 0\<rparr>" ex_wt_tail_only]
      same_text by blast
  with same_text other_tail e1 e3 show ?thesis by blast
qed

section \<open>Dialect B\<close>

subsection \<open>One child\<close>

lemma py_int_error: "py_int s = Inl e \<Longrightarrow> e = ValueError"
  by (auto simp: py_int_def Let_def split: prod.splits if_splits)

lemma repeat_count_error: "repeat_count c = Inl e \<Longrightarrow> e = ValueError"
  by (auto simp: repeat_count_def split: option.splits dest: py_int_error)

lemma inspect_child_malformed:
  "malformed c \<Longrightarrow> inspect_child i c st = Inl ValueError"
  by (auto simp: malformed_def inspect_child_def isl_def dest: repeat_count_error)

lemma inspect_child_removable:
  assumes "removable c"
  shows "\<exists>n. repeat_count c = Inr n \<and> 1 < n
           \<and> inspect_child i c st =
               Inr (c, [(i, or_empty (tail c))],
                    st\<lparr>groups := groups st + 1, chars := chars st + (n - 1)\<rparr>)"
  using assms by (auto simp: removable_def inspect_child_def split: sum.splits)

lemma inspect_child_kept:
  assumes "\<not> malformed c" "\<not> removable c"
  shows "inspect_child i c st =
           Inr (set_tail c (fst (collapse (tail c) st)), [], snd (collapse (tail c) st))"
  using assms
  by (auto simp: removable_def malformed_def inspect_child_def isl_def split: sum.splits prod.splits)

lemma set_tail_sel [simp]:
  "tag (set_tail c v) = tag c" "attrib (set_tail c v) = attrib c" "text' (set_tail c v) = text' c"
  "children (set_tail c v) = children c" "tail (set_tail c v) = v"
  by (cases c; simp)+

lemma set_text_sel [simp]:
  "tag (set_text c v) = tag c" "attrib (set_text c v) = attrib c" "text' (set_text c v) = v"
  "children (set_text c v) = children c" "tail (set_text c v) = tail c"
  by (cases c; simp)+

lemma set_children_sel [simp]:
  "tag (set_children c v) = tag c" "attrib (set_children c v) = attrib c"
  "text' (set_children c v) = text' c"
  "children (set_children c v) = v" "tail (set_children c v) = tail c"
  by (cases c; simp)+

lemma shell_props:
  assumes "tag a = tag b" "attrib a = attrib b"
  shows "removable a = removable b" "malformed a = malformed b"
  using assms by (simp_all add: removable_def malformed_def repeat_count_def get_def)

lemma normalized_set_tail [simp]: "normalized (set_tail c v) = normalized c"
  by (cases c) simp

lemma collapsed_collapse_str: "snd (EXTRA_SPACE_subn (fst (collapse_str s st))) = 0"
  using subn_idem [of s] by (cases "EXTRA_SPACE_subn s") (simp add: collapse_str_def)

lemma collapsed_collapse: "collapsed_opt (fst (collapse v st))"
proof (cases v)
  case None
  then show ?thesis by simp
next
  case (Some s)
  then have "fst (collapse v st) = Some (fst (collapse_str s st))"
    by (simp split: prod.splits)
  then show ?thesis by (simp add: collapsed_collapse_str)
qed

lemma child_ok_set_tail:
  "\<not> malformed c \<Longrightarrow> \<not> removable c \<Longrightarrow> collapsed_opt v \<Longrightarrow> child_ok (set_tail c v)"
  using shell_props [of "set_tail c v" c] by (simp add: child_ok_def)

subsection \<open>What the scan schedules\<close>

lemma sched_fst: "set (map fst (sched i cs)) = {i + j |j. j < length cs \<and> removable (cs ! j)}"
proof (induction cs arbitrary: i)
  case Nil
  show ?case by simp
next
  case (Cons c cs)
  have "{i + j |j. j < length (c # cs) \<and> removable ((c # cs) ! j)} =
        (if removable c then {i} else {}) \<union> {Suc i + j |j. j < length cs \<and> removable (cs ! j)}"
    (is "?L = ?R")
  proof (rule set_eqI)
    fix x
    show "x \<in> ?L \<longleftrightarrow> x \<in> ?R"
    proof
      assume "x \<in> ?L"
      then obtain j where j: "x = i + j" "j < length (c # cs)" "removable ((c # cs) ! j)" by blast
      then show "x \<in> ?R" by (cases j) auto
    next
      assume "x \<in> ?R"
      then consider "removable c" "x = i" | j where "x = Suc i + j" "j < length cs" "removable (cs ! j)"
        by (auto split: if_splits)
      then show "x \<in> ?L"
      proof cases
        case 1
        then have "x = i + 0 \<and> 0 < length (c # cs) \<and> removable ((c # cs) ! 0)" by simp
        then show ?thesis by blast
      next
        case 2
        then have "x = i + Suc j \<and> Suc j < length (c # cs) \<and> removable ((c # cs) ! Suc j)" by simp
        then show ?thesis by blast
      qed
    qed
  qed
  with Cons show ?case by auto
qed

lemma sched_sorted: "sorted_wrt (<) (map fst (sched i cs))"
proof (induction cs arbitrary: i)
  case Nil
  show ?case by simp
next
  case (Cons c cs)
  have "\<forall>k \<in> set (map fst (sched (Suc i) cs)). i < k"
    unfolding sched_fst by auto
  with Cons [of "Suc i"] show ?case by (auto simp: sorted_wrt_append)
qed

lemma sched_length: "length (sched i cs) = length (filter removable cs)"
  by (induction cs arbitrary: i) auto

subsection \<open>Counters\<close>

lemma bump_zero [simp]: "bump st (0, 0) = st"
  by (simp add: bump_def)

lemma bump_bump: "bump (bump st a) b = bump st (padd a b)"
  by (simp add: bump_def padd_def)

lemma padd_zero [simp]: "padd (0, 0) a = a" "padd a (0, 0) = a"
  by (simp_all add: padd_def)

lemma padd_assoc: "padd (padd a b) c = padd a (padd b c)"
  by (simp add: padd_def)

lemma padd_commute: "padd a b = padd b a"
  by (simp add: padd_def)

lemma padd_left_commute: "padd a (padd b c) = padd b (padd a c)"
  by (simp add: padd_def)

lemmas padd_ac = padd_assoc padd_commute padd_left_commute

lemma collapse_str_bump: "collapse_str s st = (spec_collapse s, bump st (run_stats s))"
  by (simp add: collapse_str_spec bump_def run_stats_def)

lemma collapse_bump:
  "collapse v st = (map_option spec_collapse v, bump st (run_stats (or_empty v)))"
proof (cases v)
  case None
  then show ?thesis
    by (simp add: run_stats_def spec_runs_replaced_def spec_chars_eliminated_def)
next
  case (Some s)
  then show ?thesis by (simp add: collapse_str_bump)
qed

subsection \<open>The removal loop\<close>

lemma remove_all_append:
  "remove_all (xs @ ys) p st =
     (case remove_all xs p st of Inl e \<Rightarrow> Inl e | Inr (p', st') \<Rightarrow> remove_all ys p' st')"
  by (induction xs arbitrary: p st) (auto split: sum.splits)

lemma remove_all_single: "remove_all [r] p st = remove_one r p st"
  by (cases "remove_one r p st") auto

lemma remove_one_first:
  assumes "cs \<noteq> []"
  shows "remove_one (0, t) (Elem tg at v cs ta) st =
           Inr (Elem tg at (spliced v t) (drop (Suc 0) cs) ta,
                bump st (padd (run_stats (32 # t))
                           (run_stats (or_empty v @ spec_collapse (32 # t)))))"
  using assms
  by (simp add: remove_one_def delete_child_def collapse_str_bump spliced_def bump_bump)

lemma remove_one_later:
  "remove_one (Suc (length pre), t) (Elem tg at v (pre @ p # c # rest) ta) st =
     Inr (Elem tg at v (pre @ set_tail p (spliced (tail p) t) # rest) ta,
          bump st (padd (run_stats (32 # t))
                     (run_stats (or_empty (tail p) @ spec_collapse (32 # t)))))"
  by (simp add: remove_one_def delete_child_def collapse_str_bump spliced_def bump_bump
      nth_append list_update_append)

lemma set_tail_same [simp]: "set_tail c (tail c) = c"
  by (cases c) simp

lemma removal_after_prefix:
  "remove_all (rev (sched (Suc (length pre)) cs)) (Elem tg at v (pre @ p # cs) ta) st =
     Inr (Elem tg at v (pre @ set_tail p (absorb (tail p) cs) # kept_children cs) ta,
          bump st (removal_stats (tail p) cs))"
proof (induction cs arbitrary: pre p st)
  case Nil
  show ?case by simp
next
  case (Cons c cs)
  have ih: "remove_all (rev (sched (Suc (Suc (length pre))) cs))
              (Elem tg at v (pre @ p # c # cs) ta) st =
            Inr (Elem tg at v (pre @ p # set_tail c (absorb (tail c) cs) # kept_children cs) ta,
                 bump st (removal_stats (tail c) cs))"
    using Cons.IH [of "pre @ [p]" c st] by simp
  show ?case
  proof (cases "removable c")
    case True
    have "remove_all (rev (sched (Suc (length pre)) (c # cs))) (Elem tg at v (pre @ p # c # cs) ta) st =
          remove_one (Suc (length pre), or_empty (tail c))
            (Elem tg at v (pre @ p # set_tail c (absorb (tail c) cs) # kept_children cs) ta)
            (bump st (removal_stats (tail c) cs))"
      using True ih by (simp add: remove_all_append remove_all_single del: remove_all.simps)
    also have "\<dots> =
          Inr (Elem tg at v (pre @ set_tail p (spliced (tail p) (or_empty (tail c))) # kept_children cs) ta,
               bump (bump st (removal_stats (tail c) cs))
                 (padd (run_stats (32 # or_empty (tail c)))
                    (run_stats (or_empty (tail p) @ spec_collapse (32 # or_empty (tail c))))))"
      by (rule remove_one_later)
    finally show ?thesis
      using True by (simp add: bump_bump padd_ac)
  next
    case False
    then show ?thesis using ih by simp
  qed
qed

lemma removal_pass:
  "remove_all (rev (sched 0 cs)) (Elem tg at v cs ta) st =
     Inr (Elem tg at (absorb v cs) (kept_children cs) ta, bump st (removal_stats v cs))"
proof (cases cs)
  case Nil
  then show ?thesis by simp
next
  case (Cons c rest)
  have pre: "remove_all (rev (sched (Suc 0) rest)) (Elem tg at v (c # rest) ta) st =
     Inr (Elem tg at v (set_tail c (absorb (tail c) rest) # kept_children rest) ta,
          bump st (removal_stats (tail c) rest))"
    using removal_after_prefix [of "[]" rest tg at v c ta st] by simp
  show ?thesis
  proof (cases "removable c")
    case True
    have "remove_all (rev (sched 0 cs)) (Elem tg at v cs ta) st =
          remove_one (0, or_empty (tail c))
            (Elem tg at v (set_tail c (absorb (tail c) rest) # kept_children rest) ta)
            (bump st (removal_stats (tail c) rest))"
      using True Cons pre by (simp add: remove_all_append remove_all_single del: remove_all.simps)
    also have "\<dots> =
          Inr (Elem tg at (spliced v (or_empty (tail c))) (kept_children rest) ta,
               bump (bump st (removal_stats (tail c) rest))
                 (padd (run_stats (32 # or_empty (tail c)))
                    (run_stats (or_empty v @ spec_collapse (32 # or_empty (tail c))))))"
      using remove_one_first [of "set_tail c (absorb (tail c) rest) # kept_children rest"] by simp
    finally show ?thesis
      using True Cons by (simp add: bump_bump padd_ac)
  next
    case False
    then show ?thesis using Cons pre by simp
  qed
qed

subsection \<open>The specification keeps tags, attributes and tails\<close>

lemma spec_fix_shell [simp]:
  "tag (spec_fix e) = tag e" "attrib (spec_fix e) = attrib e" "tail (spec_fix e) = tail e"
  by (cases e; simp)+

lemma spec_fix_props [simp]:
  "removable (spec_fix c) = removable c" "malformed (spec_fix c) = malformed c"
  "repeat_count (spec_fix c) = repeat_count c"
  using shell_props [of "spec_fix c" c] by (simp_all add: repeat_count_def get_def)

lemma scan_stats_spec_fix [simp]: "scan_stats (spec_fix c) = scan_stats c"
  by (simp add: scan_stats_def)

lemma set_tail_props [simp]:
  "removable (set_tail c v) = removable c" "malformed (set_tail c v) = malformed c"
  using shell_props [of "set_tail c v" c] by simp_all

lemma scanned_removable [simp]: "removable (scanned c) = removable c"
  by (simp add: scanned_def)

lemma inspect_child_scanned:
  assumes "\<not> malformed c"
  shows "inspect_child i c st =
           Inr (scanned c, if removable c then [(i, or_empty (tail c))] else [],
                bump st (scan_stats c))"
proof (cases "removable c")
  case True
  with inspect_child_removable [of c i st] obtain k where
    "repeat_count c = Inr k" and
    "inspect_child i c st =
       Inr (c, [(i, or_empty (tail c))],
            st\<lparr>groups := groups st + 1, chars := chars st + (k - 1)\<rparr>)"
    by blast
  with True show ?thesis by (simp add: scanned_def scan_stats_def bump_def)
next
  case False
  with assms show ?thesis
    by (simp add: inspect_child_kept collapse_bump scanned_def scan_stats_def)
qed

lemma sched_scanned:
  "sched i (scanned c # rest) =
     (if removable c then [(i, or_empty (tail c))] else []) @ sched (Suc i) rest"
  by (simp add: scanned_def)

subsection \<open>The nesting a tree needs\<close>

lemma max_list_less: "max_list xs < n \<longleftrightarrow> 0 < n \<and> (\<forall>x \<in> set xs. x < n)"
  by (induction xs) auto

lemma max_list_le: "max_list xs \<le> n \<longleftrightarrow> (\<forall>x \<in> set xs. x \<le> n)"
  by (induction xs) auto

lemma frames_le:
  "frames (Elem tg at tx cs ta) \<le> n \<longleftrightarrow>
     (if or_empty tx = [] then 2 else 3) \<le> n \<and> (\<forall>c \<in> set cs. frames c < n)"
  by (auto simp: max_list_less Suc_le_eq)

lemma frames_ge_2: "2 \<le> frames e"
  by (cases e) (simp add: le_max_iff_disj)

lemma frames_height: "frames e \<le> height e + 2"
proof (induction e)
  case (Elem tg at tx cs ta)
  have "max_list (map frames cs) \<le> max_list (map height cs) + 2"
    unfolding max_list_le
  proof
    fix x assume "x \<in> set (map frames cs)"
    then obtain c where c: "c \<in> set cs" "x = frames c" by auto
    with Elem have "x \<le> height c + 2" by simp
    moreover have "height c \<le> max_list (map height cs)"
      using c(1) max_list_le [of "map height cs" "max_list (map height cs)"] by simp
    ultimately show "x \<le> max_list (map height cs) + 2" by simp
  qed
  then show ?case by simp
qed

subsection \<open>The scan of the children\<close>

lemma scan_children_Cons_error:
  "fix_element n c st = Inl e \<Longrightarrow> scan_children n i (c # cs) st = Inl e"
  by simp

lemma scan_children_Cons_inspect_error:
  "fix_element n c st = Inr (c1, st1) \<Longrightarrow> inspect_child i c1 st1 = Inl e
     \<Longrightarrow> scan_children n i (c # cs) st = Inl e"
  by simp

lemma scan_children_Cons_rest_error:
  "fix_element n c st = Inr (c1, st1) \<Longrightarrow> inspect_child i c1 st1 = Inr (c2, rm, st2)
     \<Longrightarrow> scan_children n (Suc i) cs st2 = Inl e
     \<Longrightarrow> scan_children n i (c # cs) st = Inl e"
  by simp

lemma scan_children_Cons_ok:
  "fix_element n c st = Inr (c1, st1) \<Longrightarrow> inspect_child i c1 st1 = Inr (c2, rm, st2)
     \<Longrightarrow> scan_children n (Suc i) cs st2 = Inr (cs', rms, st3)
     \<Longrightarrow> scan_children n i (c # cs) st = Inr (c2 # cs', rm @ rms, st3)"
  by simp

lemma scan_spec:
  assumes "\<And>c st. c \<in> set cs \<Longrightarrow>
     (\<not> has_malformed c \<and> frames c \<le> n \<longrightarrow>
        fix_element n c st = Inr (spec_fix c, bump st (spec_stats c)))
     \<and> (\<not> (\<not> has_malformed c \<and> frames c \<le> n) \<longrightarrow>
          (\<exists>err. fix_element n c st = Inl err
             \<and> (err = ValueError \<and> has_malformed c \<or> err = RecursionError \<and> n < frames c)))"
  shows
    "(list_all (\<lambda>c. \<not> has_malformed c \<and> \<not> malformed c \<and> frames c \<le> n) cs \<longrightarrow>
        scan_children n i cs st =
          Inr (map (\<lambda>c. scanned (spec_fix c)) cs,
               sched i (map (\<lambda>c. scanned (spec_fix c)) cs),
               bump st (psum (map (\<lambda>c. padd (spec_stats c) (scan_stats c)) cs))))
     \<and> (\<not> list_all (\<lambda>c. \<not> has_malformed c \<and> \<not> malformed c \<and> frames c \<le> n) cs \<longrightarrow>
          (\<exists>err. scan_children n i cs st = Inl err
             \<and> (err = ValueError \<and> list_ex (\<lambda>c. has_malformed c \<or> malformed c) cs
                 \<or> err = RecursionError \<and> list_ex (\<lambda>c. n < frames c) cs)))"
  using assms
proof (induction cs arbitrary: i st)
  case Nil
  show ?case by simp
next
  case (Cons c cs)
  let ?good = "\<lambda>c. \<not> has_malformed c \<and> \<not> malformed c \<and> frames c \<le> n"
  have IHc: "\<And>st. (\<not> has_malformed c \<and> frames c \<le> n \<longrightarrow>
        fix_element n c st = Inr (spec_fix c, bump st (spec_stats c)))
     \<and> (\<not> (\<not> has_malformed c \<and> frames c \<le> n) \<longrightarrow>
          (\<exists>err. fix_element n c st = Inl err
             \<and> (err = ValueError \<and> has_malformed c \<or> err = RecursionError \<and> n < frames c)))"
    using Cons.prems [of c] by simp
  have IHcs: "\<And>i st. (list_all ?good cs \<longrightarrow>
        scan_children n i cs st =
          Inr (map (\<lambda>c. scanned (spec_fix c)) cs,
               sched i (map (\<lambda>c. scanned (spec_fix c)) cs),
               bump st (psum (map (\<lambda>c. padd (spec_stats c) (scan_stats c)) cs))))
     \<and> (\<not> list_all ?good cs \<longrightarrow>
          (\<exists>err. scan_children n i cs st = Inl err
             \<and> (err = ValueError \<and> list_ex (\<lambda>c. has_malformed c \<or> malformed c) cs
                 \<or> err = RecursionError \<and> list_ex (\<lambda>c. n < frames c) cs)))"
    using Cons.IH Cons.prems by simp
  show ?case
  proof (cases "\<not> has_malformed c \<and> frames c \<le> n")
    case False
    with IHc [of st] obtain err where
      e: "fix_element n c st = Inl err"
      and p: "err = ValueError \<and> has_malformed c \<or> err = RecursionError \<and> n < frames c"
      by blast
    from e have "scan_children n i (c # cs) st = Inl err" by (rule scan_children_Cons_error)
    moreover have "\<not> list_all ?good (c # cs)" using False by auto
    moreover have "err = ValueError \<and> list_ex (\<lambda>c. has_malformed c \<or> malformed c) (c # cs)
                 \<or> err = RecursionError \<and> list_ex (\<lambda>c. n < frames c) (c # cs)"
      using p by auto
    ultimately show ?thesis by blast
  next
    case ok: True
    with IHc [of st] have f: "fix_element n c st = Inr (spec_fix c, bump st (spec_stats c))"
      by blast
    show ?thesis
    proof (cases "malformed c")
      case True
      then have "inspect_child i (spec_fix c) (bump st (spec_stats c)) = Inl ValueError"
        by (simp add: inspect_child_malformed)
      with f have "scan_children n i (c # cs) st = Inl ValueError"
        by (rule scan_children_Cons_inspect_error)
      moreover have "\<not> list_all ?good (c # cs)" using True by simp
      moreover have "list_ex (\<lambda>c. has_malformed c \<or> malformed c) (c # cs)" using True by simp
      ultimately show ?thesis by blast
    next
      case nm: False
      then have ins: "inspect_child i (spec_fix c) (bump st (spec_stats c)) =
          Inr (scanned (spec_fix c), if removable c then [(i, or_empty (tail c))] else [],
               bump (bump st (spec_stats c)) (scan_stats c))"
        using inspect_child_scanned [of "spec_fix c" i "bump st (spec_stats c)"] by simp
      show ?thesis
      proof (cases "list_all ?good cs")
        case False
        with IHcs [of "Suc i" "bump (bump st (spec_stats c)) (scan_stats c)"] obtain err where
          e: "scan_children n (Suc i) cs (bump (bump st (spec_stats c)) (scan_stats c)) = Inl err"
          and p: "err = ValueError \<and> list_ex (\<lambda>c. has_malformed c \<or> malformed c) cs
                 \<or> err = RecursionError \<and> list_ex (\<lambda>c. n < frames c) cs"
          by blast
        from f ins e have "scan_children n i (c # cs) st = Inl err"
          by (rule scan_children_Cons_rest_error)
        moreover have "\<not> list_all ?good (c # cs)" using False by simp
        moreover have "err = ValueError \<and> list_ex (\<lambda>c. has_malformed c \<or> malformed c) (c # cs)
                 \<or> err = RecursionError \<and> list_ex (\<lambda>c. n < frames c) (c # cs)"
          using p by auto
        ultimately show ?thesis by blast
      next
        case True
        with IHcs [of "Suc i" "bump (bump st (spec_stats c)) (scan_stats c)"] have
          r: "scan_children n (Suc i) cs (bump (bump st (spec_stats c)) (scan_stats c)) =
                Inr (map (\<lambda>c. scanned (spec_fix c)) cs,
                     sched (Suc i) (map (\<lambda>c. scanned (spec_fix c)) cs),
                     bump (bump (bump st (spec_stats c)) (scan_stats c))
                       (psum (map (\<lambda>c. padd (spec_stats c) (scan_stats c)) cs)))"
          by blast
        from f ins r have "scan_children n i (c # cs) st =
            Inr (scanned (spec_fix c) # map (\<lambda>c. scanned (spec_fix c)) cs,
                 (if removable c then [(i, or_empty (tail c))] else [])
                   @ sched (Suc i) (map (\<lambda>c. scanned (spec_fix c)) cs),
                 bump (bump (bump st (spec_stats c)) (scan_stats c))
                   (psum (map (\<lambda>c. padd (spec_stats c) (scan_stats c)) cs)))"
          by (rule scan_children_Cons_ok)
        moreover have "(if removable c then [(i, or_empty (tail c))] else [])
                   @ sched (Suc i) (map (\<lambda>c. scanned (spec_fix c)) cs)
              = sched i (map (\<lambda>c. scanned (spec_fix c)) (c # cs))"
          using sched_scanned [of i "spec_fix c"] by simp
        moreover have "bump (bump (bump st (spec_stats c)) (scan_stats c))
                   (psum (map (\<lambda>c. padd (spec_stats c) (scan_stats c)) cs))
              = bump st (psum (map (\<lambda>c. padd (spec_stats c) (scan_stats c)) (c # cs)))"
          by (simp add: bump_bump padd_assoc)
        moreover have "list_all ?good (c # cs)" using True ok nm by simp
        ultimately show ?thesis by simp
      qed
    qed
  qed
qed

subsection \<open>One element\<close>

lemma fix_element_unfold:
  assumes "2 \<le> n" "n = 2 \<longrightarrow> or_empty tx = []"
  shows "fix_element n (Elem tg at tx cs ta) st =
     (case scan_children (n - 1) 0 cs (bump st (run_stats (or_empty tx))) of
        Inl e \<Rightarrow> Inl e
      | Inr (cs', to_remove, st2) \<Rightarrow>
          remove_all (rev to_remove) (Elem tg at (map_option spec_collapse tx) cs' ta) st2)"
  using assms by (auto simp: collapse_bump split: sum.splits)

lemma fix_element_too_deep:
  assumes "n \<le> 1 \<or> (n = 2 \<and> or_empty tx \<noteq> [])"
  shows "fix_element n (Elem tg at tx cs ta) st = Inl RecursionError"
  using assms by auto

lemma fix_element_spec:
  "(\<not> has_malformed e \<and> frames e \<le> n \<longrightarrow>
      fix_element n e st = Inr (spec_fix e, bump st (spec_stats e)))
   \<and> (\<not> (\<not> has_malformed e \<and> frames e \<le> n) \<longrightarrow>
        (\<exists>err. fix_element n e st = Inl err
           \<and> (err = ValueError \<and> has_malformed e \<or> err = RecursionError \<and> n < frames e)))"
proof (induction e arbitrary: n st)
  case (Elem tg at tx cs ta)
  let ?e = "Elem tg at tx cs ta"
  let ?good = "\<lambda>c. \<not> has_malformed c \<and> \<not> malformed c \<and> frames c \<le> n - 1"
  show ?case
  proof (cases "n \<le> 1 \<or> (n = 2 \<and> or_empty tx \<noteq> [])")
    case True
    then have "fix_element n ?e st = Inl RecursionError" by (rule fix_element_too_deep)
    moreover have "n < frames ?e" using True by (auto simp: less_max_iff_disj)
    ultimately show ?thesis by (simp del: fix_element.simps frames.simps)
  next
    case False
    then have n: "2 \<le> n" "n = 2 \<longrightarrow> or_empty tx = []" by auto
    then have base: "(if or_empty tx = [] then 2 else 3) \<le> n" by auto
    have IH: "\<And>c st. c \<in> set cs \<Longrightarrow>
       (\<not> has_malformed c \<and> frames c \<le> n - 1 \<longrightarrow>
          fix_element (n - 1) c st = Inr (spec_fix c, bump st (spec_stats c)))
       \<and> (\<not> (\<not> has_malformed c \<and> frames c \<le> n - 1) \<longrightarrow>
            (\<exists>err. fix_element (n - 1) c st = Inl err
               \<and> (err = ValueError \<and> has_malformed c
                   \<or> err = RecursionError \<and> n - 1 < frames c)))"
      using Elem by blast
    note scan = scan_spec [OF IH, of cs 0 "bump st (run_stats (or_empty tx))"]
    show ?thesis
    proof (cases "list_all ?good cs")
      case True
      with scan have s: "scan_children (n - 1) 0 cs (bump st (run_stats (or_empty tx))) =
          Inr (map (\<lambda>c. scanned (spec_fix c)) cs,
               sched 0 (map (\<lambda>c. scanned (spec_fix c)) cs),
               bump (bump st (run_stats (or_empty tx)))
                 (psum (map (\<lambda>c. padd (spec_stats c) (scan_stats c)) cs)))"
        by blast
      have "fix_element n ?e st = Inr (spec_fix ?e, bump st (spec_stats ?e))"
        unfolding fix_element_unfold [OF n] s
        by (simp add: removal_pass bump_bump padd_assoc)
      moreover have "\<not> has_malformed ?e"
        using True by (auto simp: list_all_iff list_ex_iff)
      moreover have "frames ?e \<le> n"
        unfolding frames_le using True base n(1) by (auto simp: list_all_iff)
      ultimately show ?thesis by (simp del: fix_element.simps frames.simps has_malformed.simps spec_fix.simps spec_stats.simps)
    next
      case False
      with scan obtain err where
        e: "scan_children (n - 1) 0 cs (bump st (run_stats (or_empty tx))) = Inl err"
        and p: "err = ValueError \<and> list_ex (\<lambda>c. has_malformed c \<or> malformed c) cs
                 \<or> err = RecursionError \<and> list_ex (\<lambda>c. n - 1 < frames c) cs"
        by blast
      have f: "fix_element n ?e st = Inl err"
        unfolding fix_element_unfold [OF n] e by simp
      have q: "err = ValueError \<and> has_malformed ?e \<or> err = RecursionError \<and> n < frames ?e"
      proof -
        have "list_ex (\<lambda>c. n - 1 < frames c) cs \<Longrightarrow> n < frames ?e"
        proof -
          assume "list_ex (\<lambda>c. n - 1 < frames c) cs"
          then obtain c where c: "c \<in> set cs" "n - 1 < frames c" by (auto simp: list_ex_iff)
          from c(2) have "\<not> frames c < n" by arith
          with c(1) have "\<not> (\<forall>c \<in> set cs. frames c < n)" by blast
          then have "\<not> frames ?e \<le> n" unfolding frames_le by blast
          then show ?thesis by (simp only: not_le)
        qed
        with p show ?thesis by auto
      qed
      have "\<not> (\<not> has_malformed ?e \<and> frames ?e \<le> n)"
        using q by auto
      with f q show ?thesis by (simp del: fix_element.simps frames.simps has_malformed.simps)
    qed
  qed
qed

lemma fix_element_returns:
  "\<not> has_malformed e \<Longrightarrow> frames e \<le> n \<Longrightarrow>
     fix_element n e st = Inr (spec_fix e, bump st (spec_stats e))"
  using fix_element_spec [of e n st] by blast

lemma fix_element_result:
  assumes "fix_element n e st = Inr (e', st')"
  shows "e' = spec_fix e" "st' = bump st (spec_stats e)" "\<not> has_malformed e" "frames e \<le> n"
  using assms fix_element_spec [of e n st] by auto

lemma fix_element_error:
  assumes "fix_element n e st = Inl err"
  shows "err = ValueError \<and> has_malformed e \<or> err = RecursionError \<and> n < frames e"
  using assms fix_element_spec [of e n st] by auto

lemma fix_element_malformed:
  assumes "has_malformed e"
  shows "fix_element n e st = Inl ValueError \<or> fix_element n e st = Inl RecursionError"
  using assms fix_element_spec [of e n st] by auto

subsection \<open>What the specification returns is in normal form\<close>

lemma collapsed_fixpoint:
  assumes "collapsed_opt v"
  shows "map_option spec_collapse v = v" "run_stats (or_empty v) = (0, 0)"
proof -
  show "map_option spec_collapse v = v"
  proof (cases v)
    case None
    then show ?thesis by simp
  next
    case (Some s)
    with assms have "snd (EXTRA_SPACE_subn s) = 0" by simp
    then have "fst (EXTRA_SPACE_subn s) = s" by (rule subn_zero_id)
    with Some show ?thesis by (simp add: subn_spec)
  qed
  show "run_stats (or_empty v) = (0, 0)"
  proof (cases v)
    case None
    then show ?thesis
      by (simp add: run_stats_def spec_runs_replaced_def spec_chars_eliminated_def)
  next
    case (Some s)
    with assms have "spec_runs_replaced s = 0" by (simp add: subn_spec)
    with Some show ?thesis by (simp add: run_stats_def no_runs_no_chars)
  qed
qed

lemma collapsed_spliced: "collapsed_opt (spliced v t)"
  using collapsed_spec_collapse [of "Some (or_empty v @ spec_collapse (32 # t))"]
  by (simp add: spliced_def)

lemma collapsed_absorb: "collapsed_opt v \<Longrightarrow> collapsed_opt (absorb v cs)"
  by (cases cs) (simp_all add: collapsed_spliced)

lemma scanned_sel [simp]:
  "tag (scanned c) = tag c" "attrib (scanned c) = attrib c" "text' (scanned c) = text' c"
  "children (scanned c) = children c"
  by (simp_all add: scanned_def)

lemma scanned_props [simp]:
  "malformed (scanned c) = malformed c" "normalized (scanned c) = normalized c"
  by (simp_all add: scanned_def)

lemma scanned_tail_collapsed: "\<not> removable c \<Longrightarrow> collapsed_opt (tail (scanned c))"
  by (simp add: scanned_def collapsed_spec_collapse)

lemma kept_children_all:
  assumes "\<And>c. c \<in> set cs \<Longrightarrow> \<not> removable c \<Longrightarrow>
             normalized c \<and> \<not> malformed c \<and> collapsed_opt (tail c)"
  shows "list_all (\<lambda>c. normalized c \<and> child_ok c) (kept_children cs)"
  using assms
proof (induction cs)
  case Nil
  show ?case by simp
next
  case (Cons c cs)
  have rest: "list_all (\<lambda>c. normalized c \<and> child_ok c) (kept_children cs)"
    using Cons by simp
  show ?case
  proof (cases "removable c")
    case True
    with rest show ?thesis by simp
  next
    case False
    with Cons.prems [of c] have "normalized c" "\<not> malformed c" "collapsed_opt (tail c)"
      by simp_all
    then have "normalized (set_tail c (absorb (tail c) cs))"
      and "child_ok (set_tail c (absorb (tail c) cs))"
      using False by (simp_all add: child_ok_def collapsed_absorb)
    with False rest show ?thesis by simp
  qed
qed

lemma spec_fix_normalized: "\<not> has_malformed e \<Longrightarrow> normalized (spec_fix e)"
proof (induction e)
  case (Elem tg at tx cs ta)
  let ?cs1 = "map (\<lambda>c. scanned (spec_fix c)) cs"
  have "list_all (\<lambda>c. normalized c \<and> child_ok c) (kept_children ?cs1)"
  proof (rule kept_children_all)
    fix c1 assume "c1 \<in> set ?cs1" and nr: "\<not> removable c1"
    then obtain c where c: "c \<in> set cs" "c1 = scanned (spec_fix c)" by auto
    with Elem.prems have "\<not> has_malformed c" "\<not> malformed c"
      by (auto simp: list_ex_iff)
    with Elem.IH [of c] c nr
    show "normalized c1 \<and> \<not> malformed c1 \<and> collapsed_opt (tail c1)"
      by (simp add: scanned_tail_collapsed)
  qed
  moreover have "collapsed_opt (absorb (map_option spec_collapse tx) ?cs1)"
    by (rule collapsed_absorb) (rule collapsed_spec_collapse)
  ultimately show ?case by simp
qed

lemma normalized_not_malformed: "normalized e \<Longrightarrow> \<not> has_malformed e"
  by (induction e) (auto simp: list_all_iff list_ex_iff child_ok_def)

subsection \<open>The specification leaves a normal form alone\<close>

lemma kept_children_id:
  "list_all (\<lambda>c. \<not> removable c) cs \<Longrightarrow> kept_children cs = cs"
proof (induction cs)
  case Nil
  show ?case by simp
next
  case (Cons c cs)
  then have "absorb (tail c) cs = tail c" by (cases cs) simp_all
  with Cons show ?case by simp
qed

lemma removal_stats_none:
  "list_all (\<lambda>c. \<not> removable c) cs \<Longrightarrow> removal_stats v cs = (0, 0)"
  by (induction cs arbitrary: v) simp_all

lemma absorb_none: "list_all (\<lambda>c. \<not> removable c) cs \<Longrightarrow> absorb v cs = v"
  by (cases cs) simp_all

lemma psum_zero: "(\<And>x. x \<in> set xs \<Longrightarrow> x = (0, 0)) \<Longrightarrow> psum xs = (0, 0)"
  by (induction xs) simp_all

lemma spec_normalized:
  "normalized e \<Longrightarrow> spec_fix e = e \<and> spec_stats e = (0, 0)"
proof (induction e)
  case (Elem tg at tx cs ta)
  from Elem.prems have tx: "collapsed_opt tx"
    and ch: "\<And>c. c \<in> set cs \<Longrightarrow> normalized c \<and> child_ok c"
    by (simp_all add: list_all_iff)
  have fixc: "\<And>c. c \<in> set cs \<Longrightarrow> scanned (spec_fix c) = c"
  proof -
    fix c assume c: "c \<in> set cs"
    with ch Elem.IH [of c] have "spec_fix c = c" "child_ok c" by simp_all
    then show "scanned (spec_fix c) = c"
      by (simp add: scanned_def child_ok_def collapsed_fixpoint(1))
  qed
  then have cs1: "map (\<lambda>c. scanned (spec_fix c)) cs = cs" by (simp add: map_idI)
  have nr: "list_all (\<lambda>c. \<not> removable c) cs"
    using ch by (auto simp: list_all_iff child_ok_def)
  have st: "psum (map (\<lambda>c. padd (spec_stats c) (scan_stats c)) cs) = (0, 0)"
  proof (rule psum_zero)
    fix x assume "x \<in> set (map (\<lambda>c. padd (spec_stats c) (scan_stats c)) cs)"
    then obtain c where c: "c \<in> set cs" "x = padd (spec_stats c) (scan_stats c)" by auto
    with ch Elem.IH [of c] have "spec_stats c = (0, 0)" "child_ok c" by simp_all
    then have "scan_stats c = (0, 0)"
      by (simp add: scan_stats_def child_ok_def collapsed_fixpoint(2))
    with c \<open>spec_stats c = (0, 0)\<close> show "x = (0, 0)" by simp
  qed
  show ?case
    using tx nr st
    by (simp add: cs1 kept_children_id removal_stats_none absorb_none collapsed_fixpoint)
qed

subsection \<open>The specification does not deepen a tree\<close>

lemma spec_collapse_Nil: "spec_collapse s = [] \<longleftrightarrow> s = []"
proof
  assume "spec_collapse s = []"
  then have "fst (EXTRA_SPACE_subn s) = []" by (simp add: subn_spec)
  then show "s = []"
    by (cases s rule: EXTRA_SPACE_subn.cases) (auto split: prod.splits if_splits)
next
  assume "s = []"
  then show "spec_collapse s = []" by (simp add: spec_collapse_def)
qed

lemma or_empty_collapse: "or_empty (map_option spec_collapse v) = [] \<longleftrightarrow> or_empty v = []"
  by (cases v) (simp_all add: spec_collapse_Nil)

lemma frames_set_tail [simp]: "frames (set_tail c v) = frames c"
  by (cases c) simp

lemma frames_scanned [simp]: "frames (scanned c) = frames c"
  by (simp add: scanned_def)

lemma kept_children_frames:
  "x \<in> set (map frames (kept_children cs)) \<Longrightarrow> x \<in> set (map frames cs)"
  by (induction cs) (auto split: if_splits)

lemma spec_fix_frames: "frames (spec_fix e) \<le> frames e"
proof (induction e)
  case (Elem tg at tx cs ta)
  let ?cs1 = "map (\<lambda>c. scanned (spec_fix c)) cs"
  let ?m = "max_list (map frames cs)"
  have ch: "max_list (map frames (kept_children ?cs1)) \<le> ?m"
    unfolding max_list_le
  proof
    fix x assume "x \<in> set (map frames (kept_children ?cs1))"
    then have "x \<in> set (map frames ?cs1)" by (rule kept_children_frames)
    then obtain c where c: "c \<in> set cs" "x = frames (spec_fix c)" by auto
    with Elem have "x \<le> frames c" by simp
    moreover have "frames c \<le> ?m"
      using c(1) max_list_le [of "map frames cs" ?m] by simp
    ultimately show "x \<le> ?m" by simp
  qed
  have tx: "(if or_empty (absorb (map_option spec_collapse tx) ?cs1) = [] then 2 else 3)
              \<le> max (if or_empty tx = [] then 2 else 3) (Suc ?m)"
  proof (cases cs)
    case Nil
    then show ?thesis by (simp add: or_empty_collapse)
  next
    case (Cons c rest)
    have "2 \<le> frames c" by (rule frames_ge_2)
    moreover have "frames c \<le> ?m"
      using Cons max_list_le [of "map frames cs" ?m] by simp
    ultimately have "3 \<le> Suc ?m" by simp
    then show ?thesis by (simp add: le_max_iff_disj)
  qed
  have mono: "max a' (Suc m') \<le> max a (Suc m)" if "m' \<le> m" "a' \<le> max a (Suc m)"
    for a a' m m' :: nat
    using that by (auto simp: le_max_iff_disj)
  show ?case
    by (simp only: spec_fix.simps frames.simps) (rule mono [OF ch tx])
qed

subsection \<open>The normalizer on the example trees\<close>

lemmas odt_eval =
  fix_odt_tree_def ex_root_def para_def marker_def T_P_def T_S_def T_C_ATTR_def ODT_TEXT_def
  asc_def inspect_child_def repeat_count_def get_def py_int_def collapse_str_def remove_one_def
  delete_child_def to_ascii_def ascii_space_def ascii_digit_def sp_char_def

lemma eval_count5:
  "fix_odt_tree 900 ex_count5_tail3 = Inr (ex_count5_tail3_fixed, 2, 7)"
  by (simp add: ex_count5_tail3_def ex_count5_tail3_fixed_def odt_eval)

lemma eval_para_count5:
  "fix_odt_tree 900 ex_para_count5 = Inr (ex_para_count5_fixed, 2, 7)"
  by (simp add: ex_para_count5_def ex_para_count5_fixed_def odt_eval)

lemma eval_adjacent:
  "fix_odt_tree 900 ex_adjacent = Inr (ex_adjacent_fixed, 4, 5)"
  by (simp add: ex_adjacent_def ex_adjacent_fixed_def odt_eval)

lemma eval_span_marker:
  "fix_odt_tree 900 ex_span_marker = Inr (ex_span_marker_fixed, 1, 2)"
  by (simp add: ex_span_marker_def ex_span_marker_fixed_def odt_eval)

lemma eval_malformed:
  "fix_odt_tree 900 ex_malformed = Inl ValueError"
  by (simp add: ex_malformed_def odt_eval)

lemma eval_no_count:
  "fix_odt_tree 900 ex_no_count = Inr (ex_no_count_fixed, 1, 1)"
  by (simp add: ex_no_count_def ex_no_count_fixed_def odt_eval)

lemma replicate_numeral: "replicate (numeral k) x = x # replicate (pred_numeral k) x"
  by (simp add: numeral_eq_Suc)

lemmas plain_eval = replicate_numeral
  plain_odt_def para_line_def ex_root_def para_def marker_def T_P_def T_S_def T_C_ATTR_def
  ODT_TEXT_def asc_def py_int_def to_ascii_def ascii_space_def ascii_digit_def

lemma plain_adjacent:
  "plain_odt 900 ex_adjacent = Inr (asc ''Hello   world    again'')"
  by (simp add: ex_adjacent_def plain_eval)

lemma plain_adjacent_fixed:
  "plain_odt 900 ex_adjacent_fixed = Inr (asc ''Hello world '')"
  by (simp add: ex_adjacent_fixed_def plain_eval)

lemma example_heights:
  "height ex_count5_tail3 = 3" "height ex_adjacent = 3" "height ex_span_marker = 3"
  "height ex_malformed = 3" "height ex_no_count = 3" "height ex_para_count5 = 2"
  by (simp_all add: ex_count5_tail3_def ex_adjacent_def ex_span_marker_def ex_malformed_def
      ex_no_count_def ex_para_count5_def ex_root_def para_def marker_def)

lemmas marker_eval =
  removable_def malformed_def repeat_count_def get_def py_int_def to_ascii_def ascii_space_def
  ascii_digit_def asc_def T_S_def T_P_def T_C_ATTR_def ODT_TEXT_def ex_root_def para_def
  marker_def

lemma example_markers:
  "\<not> has_malformed ex_count5_tail3" "\<not> has_malformed ex_adjacent"
  "\<not> has_malformed ex_span_marker" "has_malformed ex_malformed"
  "\<not> has_malformed ex_no_count" "\<not> has_malformed ex_para_count5"
  by (simp_all add: ex_count5_tail3_def ex_adjacent_def ex_span_marker_def ex_malformed_def
      ex_no_count_def ex_para_count5_def marker_eval)

lemma example_not_normal:
  "\<not> no_marker_below ex_count5_tail3" "\<not> no_marker_below ex_adjacent"
  "no_marker_below ex_count5_tail3_fixed" "no_marker_below ex_adjacent_fixed"
  by (simp_all add: ex_count5_tail3_def ex_adjacent_def ex_count5_tail3_fixed_def
      ex_adjacent_fixed_def marker_eval)

subsection \<open>Consequences for the normalizer\<close>

lemma deep_enough: "height e + 2 \<le> n \<Longrightarrow> frames e \<le> n"
  using frames_height [of e] by simp

lemma normalized_no_marker: "normalized e \<Longrightarrow> no_marker_below e"
  by (induction e) (auto simp: list_all_iff child_ok_def)

lemma fix_element_normal_form:
  assumes "fix_element n e st = Inr (e', st')"
  shows "normalized e'"
  using fix_element_result [OF assms] spec_fix_normalized by simp

lemma fix_element_again:
  assumes "fix_element n e st = Inr (e', st')"
  shows "fix_element n e' st2 = Inr (e', st2)"
proof -
  from fix_element_result [OF assms] have e': "e' = spec_fix e" and nm: "\<not> has_malformed e"
    and fr: "frames e \<le> n" by simp_all
  have norm: "normalized e'" using assms by (rule fix_element_normal_form)
  then have "\<not> has_malformed e'" by (rule normalized_not_malformed)
  moreover have "frames e' \<le> n" using spec_fix_frames [of e] fr e' by simp
  ultimately have "fix_element n e' st2 = Inr (spec_fix e', bump st2 (spec_stats e'))"
    by (rule fix_element_returns)
  with spec_normalized [OF norm] show ?thesis by simp
qed

lemma fix_odt_tree_Inr:
  "fix_odt_tree n root = Inr (root', g, c) \<longleftrightarrow>
     (\<exists>st. fix_element n root \<lparr>groups = 0, chars = 0\<rparr> = Inr (root', st)
        \<and> g = groups st \<and> c = chars st)"
  by (auto simp: fix_odt_tree_def split: sum.splits)

lemma fix_odt_tree_Inl:
  "fix_odt_tree n root = Inl err \<longleftrightarrow> fix_element n root \<lparr>groups = 0, chars = 0\<rparr> = Inl err"
  by (auto simp: fix_odt_tree_def split: sum.splits)

lemma kept_children_nth:
  assumes "j < length cs" "\<not> removable (cs ! j)"
  shows "kept_index j cs < length (kept_children cs)
         \<and> kept_children cs ! kept_index j cs =
             set_tail (cs ! j) (absorb (tail (cs ! j)) (drop (Suc j) cs))"
  using assms
proof (induction cs arbitrary: j)
  case Nil
  then show ?case by simp
next
  case (Cons c cs)
  show ?case
  proof (cases j)
    case 0
    with Cons.prems show ?thesis by (simp add: kept_index_def)
  next
    case (Suc k)
    with Cons.prems have k: "k < length cs" "\<not> removable (cs ! k)" by simp_all
    from Cons.IH [OF k] Suc show ?thesis
      by (cases "removable c") (simp_all add: kept_index_def)
  qed
qed

lemma kept_index_map:
  assumes "\<And>c. removable (f c) = removable c"
  shows "kept_index j (map f cs) = kept_index j cs"
proof -
  have "filter (\<lambda>c. \<not> removable c) (map f xs) = map f (filter (\<lambda>c. \<not> removable c) xs)" for xs
    using assms by (induction xs) simp_all
  then show ?thesis by (simp add: kept_index_def take_map)
qed

lemma absorb_not_removable:
  "(cs \<noteq> [] \<longrightarrow> \<not> removable (hd cs)) \<Longrightarrow> absorb v cs = v"
  by (cases cs) simp_all

lemma kept_child_of_result:
  assumes f: "fix_element n (Elem tg at tx cs ta) st = Inr (e', st')"
    and j: "j < length cs" and nr: "\<not> removable (cs ! j)"
  shows "kept_index j cs < length (children e')"
    and "children e' ! kept_index j cs =
           set_tail (spec_fix (cs ! j))
             (absorb (map_option spec_collapse (tail (cs ! j)))
                (map (\<lambda>c. scanned (spec_fix c)) (drop (Suc j) cs)))"
proof -
  let ?f = "\<lambda>c. scanned (spec_fix c)"
  let ?cs1 = "map ?f cs"
  from fix_element_result(1) [OF f] have ch: "children e' = kept_children ?cs1" by simp
  have j1: "j < length ?cs1" using j by simp
  have nr1: "\<not> removable (?cs1 ! j)" using j nr by simp
  have ki: "kept_index j ?cs1 = kept_index j cs" by (rule kept_index_map) simp
  have el: "?cs1 ! j = set_tail (spec_fix (cs ! j)) (map_option spec_collapse (tail (cs ! j)))"
    using j nr by (simp add: scanned_def)
  from kept_children_nth [OF j1 nr1] show "kept_index j cs < length (children e')"
    by (simp add: ch ki)
  from kept_children_nth [OF j1 nr1]
  have "kept_children ?cs1 ! kept_index j cs =
          set_tail (?cs1 ! j) (absorb (tail (?cs1 ! j)) (drop (Suc j) ?cs1))"
    by (simp add: ki)
  then show "children e' ! kept_index j cs =
           set_tail (spec_fix (cs ! j))
             (absorb (map_option spec_collapse (tail (cs ! j)))
                (map (\<lambda>c. scanned (spec_fix c)) (drop (Suc j) cs)))"
    unfolding ch el by (cases "spec_fix (cs ! j)") (simp add: drop_map)
qed

subsection \<open>More example trees\<close>

lemma eval_para_no_count:
  "fix_element 900 ex_para_no_count \<lparr>groups = 0, chars = 0\<rparr> =
     Inr (para ''a'' [Elem T_S [] None [] (Some (asc '' b''))], \<lparr>groups = 1, chars = 1\<rparr>)"
  by (simp add: ex_para_no_count_def ex_marker_no_count_def odt_eval)

lemma eval_docx_lead:
  "fix_docx_tree ex_wt_lead =
     (Elem W_T [(XML_SPACE, asc ''preserve'')] (Some (asc '' a b'')) [] (Some (asc ''c '')), 3, 5)"
  by (simp add: fix_docx_tree_def ex_wt_lead_def fix_wt_def fix_attr_def getattr_def setattr_def
      el_set_def py_strip_def unicode_space_def asc_def sp_char_def)

subsection \<open>Strings without a space run\<close>

lemma clean_Cons:
  "snd (EXTRA_SPACE_subn (x # xs)) = 0 \<longleftrightarrow>
     xs = [] \<or> (\<not> (sp_char x \<and> sp_char (hd xs)) \<and> snd (EXTRA_SPACE_subn xs) = 0)"
  by (cases xs) (auto split: prod.splits)

lemma clean_append_space:
  assumes "snd (EXTRA_SPACE_subn w1) = 0" "w1 = [] \<or> \<not> sp_char (last w1)"
    and "snd (EXTRA_SPACE_subn w2) = 0" "w2 = [] \<or> \<not> sp_char (hd w2)"
  shows "snd (EXTRA_SPACE_subn (w1 @ 32 # w2)) = 0"
  using assms(1,2)
proof (induction w1)
  case Nil
  show ?case using assms(3,4) by (simp add: clean_Cons)
next
  case (Cons x xs)
  show ?case
  proof (cases xs)
    case Nil
    with Cons.prems have "\<not> sp_char x" by simp
    moreover have "snd (EXTRA_SPACE_subn (32 # w2)) = 0" using assms(3,4) by (simp add: clean_Cons)
    ultimately show ?thesis using Nil
      by (simp add: clean_Cons [of x] del: EXTRA_SPACE_subn.simps)
  next
    case (Cons y ys)
    from Cons.prems(1) clean_Cons [of x xs]
    have "xs = [] \<or> (\<not> (sp_char x \<and> sp_char (hd xs)) \<and> snd (EXTRA_SPACE_subn xs) = 0)"
      by blast
    with Cons have a: "\<not> (sp_char x \<and> sp_char y)" "snd (EXTRA_SPACE_subn xs) = 0"
      by simp_all
    from Cons.prems(2) Cons have b: "\<not> sp_char (last xs)" by simp
    from Cons.IH [OF a(2)] b have "snd (EXTRA_SPACE_subn (xs @ 32 # w2)) = 0" by simp
    with a(1) Cons show ?thesis
      by (simp add: clean_Cons [of x] del: EXTRA_SPACE_subn.simps)
  qed
qed

lemma clean_collapse: "snd (EXTRA_SPACE_subn s) = 0 \<Longrightarrow> spec_collapse s = s"
  using subn_zero_id [of s] by (simp add: subn_spec)

lemma clean_stats: "snd (EXTRA_SPACE_subn s) = 0 \<Longrightarrow> run_stats s = (0, 0)"
  by (simp add: run_stats_def subn_spec no_runs_no_chars)

lemma four_spaces:
  assumes "snd (EXTRA_SPACE_subn w2) = 0" "w2 = [] \<or> \<not> sp_char (hd w2)"
  shows "EXTRA_SPACE_subn (32 # 32 # 32 # 32 # w2) = (32 # w2, 1)"
proof -
  have "dropWhile sp_char w2 = w2" using assms(2) by (cases w2) simp_all
  moreover have "EXTRA_SPACE_subn w2 = (w2, 0)"
    using assms(1) subn_zero_id [of w2] by (cases "EXTRA_SPACE_subn w2") simp
  ultimately show ?thesis by (simp add: sp_char_def)
qed

lemma four_spaces_spec:
  assumes "snd (EXTRA_SPACE_subn w2) = 0" "w2 = [] \<or> \<not> sp_char (hd w2)"
  shows "spec_collapse (32 # 32 # 32 # 32 # w2) = 32 # w2"
    and "run_stats (32 # 32 # 32 # 32 # w2) = (1, 3)"
proof -
  from four_spaces [OF assms] have s: "spec_collapse (32 # 32 # 32 # 32 # w2) = 32 # w2"
    and r: "spec_runs_replaced (32 # 32 # 32 # 32 # w2) = 1"
    by (simp_all add: subn_spec)
  show "spec_collapse (32 # 32 # 32 # 32 # w2) = 32 # w2" by (rule s)
  have "spec_chars_eliminated (32 # 32 # 32 # 32 # w2) =
          int (length (32 # 32 # 32 # 32 # w2)) - int (length (spec_collapse (32 # 32 # 32 # 32 # w2)))"
    by (rule chars_eliminated [symmetric])
  with s r show "run_stats (32 # 32 # 32 # 32 # w2) = (1, 3)"
    by (simp add: run_stats_def)
qed

lemma run_stats_Nil [simp]: "run_stats [] = (0, 0)"
  by (simp add: run_stats_def spec_runs_replaced_def spec_chars_eliminated_def)

section \<open>The claims about Dialect B\<close>

text \<open>
  Claim C9. The tree that a run of the normalizer returns has no removable marker below
  its root: no \<^verbatim>\<open>text:s\<close> element with a repeat count greater than one is left under
  any parent, whatever the nesting that the interpreter allowed.
\<close>

theorem C9_no_removable_marker_left:
  "(fix_odt_tree n root = Inr (root', g, c) \<longrightarrow> no_marker_below root')
   \<and> (fix_element n e st = Inr (e', st') \<longrightarrow> no_marker_below e')"
proof -
  have a: "fix_element k x s = Inr (x', s') \<Longrightarrow> no_marker_below x'" for k x s x' s'
    using fix_element_normal_form normalized_no_marker by blast
  then show ?thesis by (auto simp: fix_odt_tree_Inr)
qed

theorem C9_no_removable_marker_left_witness:
  "\<not> no_marker_below ex_adjacent
   \<and> fix_odt_tree 900 ex_adjacent = Inr (ex_adjacent_fixed, 4, 5)
   \<and> no_marker_below ex_adjacent_fixed
   \<and> \<not> no_marker_below ex_count5_tail3
   \<and> fix_odt_tree 900 ex_count5_tail3 = Inr (ex_count5_tail3_fixed, 2, 7)
   \<and> no_marker_below ex_count5_tail3_fixed"
  using C9_no_removable_marker_left [of 900 ex_adjacent ex_adjacent_fixed 4 5]
    C9_no_removable_marker_left [of 900 ex_count5_tail3 ex_count5_tail3_fixed 2 7]
    eval_adjacent eval_count5 example_not_normal(1,2)
  by blast

text \<open>
  Claim C7. In both dialects a second run on the tree that a first run returned returns
  the same tree and reports zero runs collapsed and zero characters removed.
\<close>

theorem C7_idempotence:
  "(fix_docx_tree root = (root', g, c) \<longrightarrow> fix_docx_tree root' = (root', 0, 0))
   \<and> (fix_odt_tree n root = Inr (root', g, c) \<longrightarrow> fix_odt_tree n root' = Inr (root', 0, 0))"
proof -
  have "fix_docx_tree root = (root', g, c) \<longrightarrow> fix_docx_tree root' = (root', 0, 0)"
  proof
    assume "fix_docx_tree root = (root', g, c)"
    then have "root' = fst (fix_docx_walk root \<lparr>groups = 0, chars = 0\<rparr>)"
      by (auto simp: fix_docx_tree_def split: prod.splits)
    then have "fix_docx_walk root' \<lparr>groups = 0, chars = 0\<rparr> = (root', \<lparr>groups = 0, chars = 0\<rparr>)"
      by (simp add: fix_docx_walk_idem)
    then show "fix_docx_tree root' = (root', 0, 0)"
      by (simp add: fix_docx_tree_def)
  qed
  moreover have "fix_odt_tree n root = Inr (root', g, c) \<longrightarrow> fix_odt_tree n root' = Inr (root', 0, 0)"
  proof
    assume "fix_odt_tree n root = Inr (root', g, c)"
    then obtain st where "fix_element n root \<lparr>groups = 0, chars = 0\<rparr> = Inr (root', st)"
      by (auto simp: fix_odt_tree_Inr)
    then have "fix_element n root' \<lparr>groups = 0, chars = 0\<rparr> = Inr (root', \<lparr>groups = 0, chars = 0\<rparr>)"
      by (rule fix_element_again)
    then show "fix_odt_tree n root' = Inr (root', 0, 0)"
      by (simp add: fix_odt_tree_def)
  qed
  ultimately show ?thesis by blast
qed

theorem C7_idempotence_witness:
  "fix_docx_tree ex_wt_lead =
     (Elem W_T [(XML_SPACE, asc ''preserve'')] (Some (asc '' a b'')) [] (Some (asc ''c '')), 3, 5)
   \<and> fix_docx_tree (Elem W_T [(XML_SPACE, asc ''preserve'')] (Some (asc '' a b'')) []
                      (Some (asc ''c '')))
       = (Elem W_T [(XML_SPACE, asc ''preserve'')] (Some (asc '' a b'')) [] (Some (asc ''c '')), 0, 0)
   \<and> fix_odt_tree 900 ex_count5_tail3 = Inr (ex_count5_tail3_fixed, 2, 7)
   \<and> fix_odt_tree 900 ex_count5_tail3_fixed = Inr (ex_count5_tail3_fixed, 0, 0)"
  using C7_idempotence [of ex_wt_lead
      "Elem W_T [(XML_SPACE, asc ''preserve'')] (Some (asc '' a b'')) [] (Some (asc ''c ''))" 3 5]
    C7_idempotence [of ex_count5_tail3 ex_count5_tail3_fixed 2 7 900]
    eval_docx_lead eval_count5
  by blast

text \<open>
  Claim C4, as the code has it. A marker is malformed when its repeat count is present
  and \<^verbatim>\<open>int\<close> rejects it. A marker without a repeat count counts as one: it is not
  removable, and a run of the normalizer that returns has kept it among the children of
  its parent, normalized, with its tail collapsed (and with the space and tail of the
  next sibling spliced in, when that is a removable marker). A malformed marker below the
  root is not recovered: the normalizer returns nothing and raises \<^verbatim>\<open>ValueError\<close>, or
  \<^verbatim>\<open>RecursionError\<close> when the nesting is too deep for the interpreter and that
  is met first; with room enough it raises \<^verbatim>\<open>ValueError\<close>, which it raises for nothing
  but a malformed marker.
\<close>

theorem C4_repeat_count:
  "(malformed c \<longleftrightarrow> tag c = T_S \<and> (\<exists>raw. get c T_C_ATTR = Some raw \<and> py_int raw = Inl ValueError))
   \<and> (tag c = T_S \<and> get c T_C_ATTR = None \<longrightarrow>
        repeat_count c = Inr 1 \<and> \<not> removable c \<and> \<not> malformed c)
   \<and> (fix_element n (Elem tg at tx cs ta) st = Inr (e', st') \<and> j < length cs
        \<and> \<not> removable (cs ! j) \<longrightarrow>
        kept_index j cs < length (children e')
        \<and> children e' ! kept_index j cs =
            set_tail (spec_fix (cs ! j))
              (absorb (map_option spec_collapse (tail (cs ! j)))
                 (map (\<lambda>c. scanned (spec_fix c)) (drop (Suc j) cs)))
        \<and> ((Suc j < length cs \<longrightarrow> \<not> removable (cs ! Suc j)) \<longrightarrow>
             children e' ! kept_index j cs =
               set_tail (spec_fix (cs ! j)) (map_option spec_collapse (tail (cs ! j)))))
   \<and> (has_malformed e \<longrightarrow>
        fix_element n e st = Inl ValueError \<or> fix_element n e st = Inl RecursionError)
   \<and> (has_malformed e \<and> height e + 2 \<le> n \<longrightarrow> fix_element n e st = Inl ValueError)
   \<and> (fix_element n e st = Inl ValueError \<longrightarrow> has_malformed e)
   \<and> (has_malformed root \<longrightarrow>
        fix_odt_tree n root = Inl ValueError \<or> fix_odt_tree n root = Inl RecursionError)
   \<and> (has_malformed root \<and> height root + 2 \<le> n \<longrightarrow> fix_odt_tree n root = Inl ValueError)
   \<and> (fix_odt_tree n root = Inl ValueError \<longrightarrow> has_malformed root)"
  (is "?A \<and> ?B \<and> ?C \<and> ?D \<and> ?E \<and> ?F \<and> ?G \<and> ?H \<and> ?I")
proof -
  have a: ?A
  proof (cases "get c T_C_ATTR")
    case None
    then show ?thesis by (simp add: malformed_def repeat_count_def)
  next
    case (Some raw)
    have "isl (py_int raw) \<longleftrightarrow> py_int raw = Inl ValueError"
      using py_int_error [of raw] by (cases "py_int raw") auto
    with Some show ?thesis by (simp add: malformed_def repeat_count_def)
  qed
  have b: ?B by (simp add: repeat_count_def removable_def malformed_def)
  have c: ?C
  proof (intro impI, elim conjE)
    assume f: "fix_element n (Elem tg at tx cs ta) st = Inr (e', st')"
      and j: "j < length cs" and nr: "\<not> removable (cs ! j)"
    note k = kept_child_of_result [OF f j nr]
    have "(Suc j < length cs \<longrightarrow> \<not> removable (cs ! Suc j)) \<longrightarrow>
             children e' ! kept_index j cs =
               set_tail (spec_fix (cs ! j)) (map_option spec_collapse (tail (cs ! j)))"
    proof
      assume nx: "Suc j < length cs \<longrightarrow> \<not> removable (cs ! Suc j)"
      let ?rest = "map (\<lambda>c. scanned (spec_fix c)) (drop (Suc j) cs)"
      have "?rest \<noteq> [] \<longrightarrow> \<not> removable (hd ?rest)"
      proof
        assume ne: "?rest \<noteq> []"
        then have l: "Suc j < length cs" by simp
        then have "hd ?rest = scanned (spec_fix (cs ! Suc j))"
          by (simp add: hd_map hd_drop_conv_nth)
        with nx l show "\<not> removable (hd ?rest)" by simp
      qed
      then have "absorb (map_option spec_collapse (tail (cs ! j))) ?rest
                   = map_option spec_collapse (tail (cs ! j))"
        by (rule absorb_not_removable)
      with k(2) show "children e' ! kept_index j cs =
               set_tail (spec_fix (cs ! j)) (map_option spec_collapse (tail (cs ! j)))"
        by simp
    qed
    with k show "kept_index j cs < length (children e')
        \<and> children e' ! kept_index j cs =
            set_tail (spec_fix (cs ! j))
              (absorb (map_option spec_collapse (tail (cs ! j)))
                 (map (\<lambda>c. scanned (spec_fix c)) (drop (Suc j) cs)))
        \<and> ((Suc j < length cs \<longrightarrow> \<not> removable (cs ! Suc j)) \<longrightarrow>
             children e' ! kept_index j cs =
               set_tail (spec_fix (cs ! j)) (map_option spec_collapse (tail (cs ! j))))"
      by blast
  qed
  have d: "has_malformed x \<longrightarrow>
        fix_element n x s = Inl ValueError \<or> fix_element n x s = Inl RecursionError" for x s
    using fix_element_malformed by blast
  have e: "has_malformed x \<and> height x + 2 \<le> n \<longrightarrow> fix_element n x s = Inl ValueError" for x s
    using fix_element_spec [of x n s] deep_enough [of x n] by auto
  have f: "fix_element n x s = Inl ValueError \<longrightarrow> has_malformed x" for x s
    using fix_element_error [of n x s ValueError] by auto
  from a b c d [of e st] e [of e st] f [of e st]
    d [of root "\<lparr>groups = 0, chars = 0\<rparr>"] e [of root "\<lparr>groups = 0, chars = 0\<rparr>"]
    f [of root "\<lparr>groups = 0, chars = 0\<rparr>"]
  show ?thesis unfolding fix_odt_tree_Inl by (intro conjI)
qed

theorem C4_repeat_count_witness:
  "has_malformed ex_malformed \<and> height ex_malformed + 2 \<le> 900
   \<and> fix_odt_tree 900 ex_malformed = Inl ValueError
   \<and> tag ex_marker_no_count = T_S \<and> get ex_marker_no_count T_C_ATTR = None
   \<and> \<not> removable ex_marker_no_count
   \<and> fix_element 900 ex_para_no_count \<lparr>groups = 0, chars = 0\<rparr> =
       Inr (para ''a'' [Elem T_S [] None [] (Some (asc '' b''))], \<lparr>groups = 1, chars = 1\<rparr>)
   \<and> children (para ''a'' [Elem T_S [] None [] (Some (asc '' b''))]) ! kept_index 0 [ex_marker_no_count]
       = set_tail (spec_fix ex_marker_no_count) (map_option spec_collapse (tail ex_marker_no_count))"
proof -
  have h: "height ex_malformed + 2 \<le> 900" by (simp add: example_heights)
  have v: "fix_odt_tree 900 ex_malformed = Inl ValueError"
    using C4_repeat_count [where root = ex_malformed and n = 900] example_markers(4) h by blast
  have m: "tag ex_marker_no_count = T_S" "get ex_marker_no_count T_C_ATTR = None"
    by (simp_all add: ex_marker_no_count_def get_def)
  have nr: "\<not> removable ex_marker_no_count"
    using C4_repeat_count [where c = ex_marker_no_count] m by blast
  have f: "fix_element 900 (Elem T_P [] (Some (asc ''a'')) [ex_marker_no_count] None)
             \<lparr>groups = 0, chars = 0\<rparr> =
       Inr (para ''a'' [Elem T_S [] None [] (Some (asc '' b''))], \<lparr>groups = 1, chars = 1\<rparr>)"
    using eval_para_no_count by (simp add: ex_para_no_count_def para_def)
  have "children (para ''a'' [Elem T_S [] None [] (Some (asc '' b''))]) ! kept_index 0 [ex_marker_no_count]
       = set_tail (spec_fix ex_marker_no_count) (map_option spec_collapse (tail ex_marker_no_count))"
    using C4_repeat_count [where n = 900 and tg = T_P and at = "[]" and tx = "Some (asc ''a'')"
        and cs = "[ex_marker_no_count]" and ta = None and st = "\<lparr>groups = 0, chars = 0\<rparr>"
        and e' = "para ''a'' [Elem T_S [] None [] (Some (asc '' b''))]"
        and st' = "\<lparr>groups = 1, chars = 1\<rparr>" and j = 0] f nr
    by simp
  with v h m nr eval_para_no_count example_markers(4) show ?thesis by blast
qed

text \<open>
  Claim C4, as stated, fails: on a paragraph that holds \<^verbatim>\<open><text:s text:c="abc"/>\<close>
  the normalizer raises \<^verbatim>\<open>ValueError\<close>.
\<close>

theorem C4_malformed_raises:
  "fix_odt_tree 900 ex_malformed = Inl ValueError"
  by (rule eval_malformed)

text \<open>
  Claim C5, as stated, fails: on the paragraph \<^verbatim>\<open>cheers<text:s text:c="5"/>   erupting\<close>
  of the self-test the normalizer does not report 2 runs and 6 characters.
\<close>

theorem C5_not_six_characters:
  "reported (fix_odt_tree 900 ex_para_count5) \<noteq> Some (2, 6)"
  by (simp add: eval_para_count5)

text \<open>
  Claim C5, as the code has it. Take a paragraph whose text has no space run and does
  not end in a space or no-break space, and whose only child is a marker, without text
  or children of its own, with repeat count 5 and a tail of three spaces followed by a
  text that has no space run and does not begin with a space or no-break space. The
  normalizer, with room for three nested calls, returns the paragraph without the
  marker, its text followed by one space and the rest of the tail, with no space run in
  it, and reports 2 runs collapsed and 7 characters removed: 4 for the marker and 3 for
  the run of four that the injected space forms with the three spaces of the tail.
\<close>

theorem C5_count5_tail3:
  assumes "snd (EXTRA_SPACE_subn (or_empty tx)) = 0"
    and "or_empty tx = [] \<or> \<not> sp_char (last (or_empty tx))"
    and "snd (EXTRA_SPACE_subn w2) = 0"
    and "w2 = [] \<or> \<not> sp_char (hd w2)"
    and "repeat_count (Elem T_S am None [] (Some (32 # 32 # 32 # w2))) = Inr 5"
    and "3 \<le> n"
  shows "fix_odt_tree n (Elem tg at tx [Elem T_S am None [] (Some (32 # 32 # 32 # w2))] ta) =
           Inr (Elem tg at (Some (or_empty tx @ 32 # w2)) [] ta, 2, 7)
         \<and> snd (EXTRA_SPACE_subn (or_empty tx @ 32 # w2)) = 0"
proof -
  let ?m = "Elem T_S am None [] (Some (32 # 32 # 32 # w2))"
  let ?e = "Elem tg at tx [?m] ta"
  have rem: "removable ?m" using assms(5) by (simp add: removable_def)
  have nm: "\<not> malformed ?m" using assms(5) by (simp add: malformed_def)
  have fm: "spec_fix ?m = ?m" by simp
  have sm: "spec_stats ?m = (0, 0)" by simp
  have sc: "scanned ?m = ?m" using rem by (simp add: scanned_def)
  have ss: "scan_stats ?m = (1, 4)" using rem assms(5) by (simp add: scan_stats_def)
  have tx: "map_option spec_collapse tx = tx"
    using assms(1) by (cases tx) (simp_all add: clean_collapse)
  have rt: "run_stats (or_empty tx) = (0, 0)" using assms(1) by (rule clean_stats)
  note four = four_spaces_spec [OF assms(3,4)]
  have cl: "snd (EXTRA_SPACE_subn (or_empty tx @ 32 # w2)) = 0"
    using assms(1-4) by (rule clean_append_space)
  have fx: "spec_fix ?e = Elem tg at (Some (or_empty tx @ 32 # w2)) [] ta"
    using rem by (simp add: sc tx spliced_def four(1) clean_collapse [OF cl])
  have stats: "spec_stats ?e = (2, 7)"
    using rem
    by (simp add: sc ss tx rt four clean_stats [OF cl] padd_def)
  have "\<not> has_malformed ?e" using nm by simp
  moreover have "frames ?e \<le> n" using assms(6) by simp
  ultimately have "fix_element n ?e \<lparr>groups = 0, chars = 0\<rparr> =
      Inr (spec_fix ?e, bump \<lparr>groups = 0, chars = 0\<rparr> (spec_stats ?e))"
    by (rule fix_element_returns)
  then have "fix_odt_tree n ?e = Inr (Elem tg at (Some (or_empty tx @ 32 # w2)) [] ta, 2, 7)"
    unfolding fx stats by (simp add: fix_odt_tree_def bump_def)
  with cl show ?thesis by blast
qed

theorem C5_count5_tail3_witness:
  "snd (EXTRA_SPACE_subn (asc ''cheers'')) = 0 \<and> \<not> sp_char (last (asc ''cheers''))
   \<and> snd (EXTRA_SPACE_subn (asc ''erupting'')) = 0 \<and> \<not> sp_char (hd (asc ''erupting''))
   \<and> repeat_count (marker ''5'' ''   erupting'') = Inr 5
   \<and> fix_odt_tree 900 ex_para_count5 = Inr (ex_para_count5_fixed, 2, 7)
   \<and> snd (EXTRA_SPACE_subn (asc ''cheers erupting'')) = 0"
proof -
  have a: "snd (EXTRA_SPACE_subn (or_empty (Some (asc ''cheers'')))) = 0"
    and b: "or_empty (Some (asc ''cheers'')) = [] \<or> \<not> sp_char (last (or_empty (Some (asc ''cheers''))))"
    and c: "snd (EXTRA_SPACE_subn (asc ''erupting'')) = 0"
    and d: "asc ''erupting'' = [] \<or> \<not> sp_char (hd (asc ''erupting''))"
    by (simp_all add: asc_def sp_char_def)
  have m: "marker ''5'' ''   erupting'' =
             Elem T_S [(T_C_ATTR, asc ''5'')] None [] (Some (32 # 32 # 32 # asc ''erupting''))"
    by (simp add: marker_def asc_def)
  have r: "repeat_count (Elem T_S [(T_C_ATTR, asc ''5'')] None []
                           (Some (32 # 32 # 32 # asc ''erupting''))) = Inr 5"
    by (simp add: repeat_count_def get_def py_int_def to_ascii_def ascii_space_def
        ascii_digit_def asc_def)
  have n: "(3::nat) \<le> 900" by simp
  have p: "ex_para_count5 = Elem T_P [] (Some (asc ''cheers''))
             [Elem T_S [(T_C_ATTR, asc ''5'')] None [] (Some (32 # 32 # 32 # asc ''erupting''))] None"
    by (simp add: ex_para_count5_def para_def m)
  have q: "ex_para_count5_fixed =
             Elem T_P [] (Some (or_empty (Some (asc ''cheers'')) @ 32 # asc ''erupting'')) [] None"
    by (simp add: ex_para_count5_fixed_def para_def asc_def)
  have s: "asc ''cheers erupting'' = or_empty (Some (asc ''cheers'')) @ 32 # asc ''erupting''"
    by (simp add: asc_def)
  from C5_count5_tail3 [OF a b c d r n, of T_P "[]" None]
  have "fix_odt_tree 900 ex_para_count5 = Inr (ex_para_count5_fixed, 2, 7)"
    and "snd (EXTRA_SPACE_subn (asc ''cheers erupting'')) = 0"
    unfolding p q s by blast+
  moreover have "\<not> sp_char (last (asc ''cheers''))" "\<not> sp_char (hd (asc ''erupting''))"
    by (simp_all add: asc_def sp_char_def)
  ultimately show ?thesis using a c r m by simp
qed

text \<open>
  Claim C1 at two neighbouring removable markers. The projection of
  \<^verbatim>\<open><text:p>Hello <text:s text:c="2"/>world <text:s text:c="3"/>again</text:p>\<close> reads
  \<^verbatim>\<open>Hello   world    again\<close>; the normalizer returns a paragraph whose projection reads
  \<^verbatim>\<open>Hello world \<close>: the word after the second marker is gone.
\<close>

theorem C1_adjacent_markers_lose_text:
  "plain_odt 900 ex_adjacent = Inr (asc ''Hello   world    again'')
   \<and> fix_odt_tree 900 ex_adjacent = Inr (ex_adjacent_fixed, 4, 5)
   \<and> plain_odt 900 ex_adjacent_fixed = Inr (asc ''Hello world '')
   \<and> non_ws (asc ''Hello   world    again'') = asc ''Helloworldagain''
   \<and> non_ws (asc ''Hello world '') = asc ''Helloworld''"
  by (simp add: plain_adjacent eval_adjacent plain_adjacent_fixed)
     (simp add: non_ws_def asc_def unicode_space_def)

text \<open>
  Claim C2. With no malformed marker and two levels of nesting beyond the height of the
  tree, the normalizer returns, and whenever it returns, its tree and its counters are
  those of the specification: \<open>spec_fix\<close> drops every removable marker from its parent
  (\<open>kept_children\<close>) and splices one space and the marker's tail, collapsed, into the
  text of the parent when the marker is the first child and into the tail of the sibling
  before it otherwise, collapsed again (\<open>absorb\<close>, \<open>spliced\<close>); \<open>spec_stats\<close> counts
  one run and the repeat count less one for the marker where the scan meets it
  (\<open>scan_stats\<close>), besides the runs that the calls of the collapser replace.
\<close>

theorem C2_marker_removal:
  "(\<not> has_malformed e \<and> height e + 2 \<le> n \<longrightarrow>
      fix_element n e st = Inr (spec_fix e, bump st (spec_stats e)))
   \<and> (fix_element n e st = Inr (e', st') \<longrightarrow> e' = spec_fix e \<and> st' = bump st (spec_stats e))
   \<and> (fix_odt_tree n root = Inr (root', g, c) \<longrightarrow>
        root' = spec_fix root \<and> (g, c) = spec_stats root)
   \<and> (removable m \<longrightarrow>
        absorb v (m # cs) =
          Some (spec_collapse (or_empty v @ spec_collapse (32 # or_empty (tail m))))
        \<and> kept_children (m # cs) = kept_children cs)
   \<and> (removable m \<and> repeat_count m = Inr k \<longrightarrow> scan_stats m = (1, k - 1))"
  (is "?A \<and> ?B \<and> ?C \<and> ?D \<and> ?E")
proof -
  have a: ?A using fix_element_returns [of e n st] deep_enough [of e n] by blast
  have b: ?B using fix_element_result(1,2) [of n e st e' st'] by blast
  have c: ?C
  proof
    assume "fix_odt_tree n root = Inr (root', g, c)"
    then obtain s where s: "fix_element n root \<lparr>groups = 0, chars = 0\<rparr> = Inr (root', s)"
      and gc: "g = groups s" "c = chars s"
      by (auto simp: fix_odt_tree_Inr)
    from fix_element_result(1,2) [OF s] gc
    show "root' = spec_fix root \<and> (g, c) = spec_stats root"
      by (simp add: bump_def)
  qed
  have d: ?D by (simp add: spliced_def)
  have e: ?E by (simp add: scan_stats_def)
  from a b c d e show ?thesis by (intro conjI)
qed

theorem C2_marker_removal_witness:
  "\<not> has_malformed ex_span_marker \<and> height ex_span_marker + 2 \<le> 900
   \<and> fix_element 900 ex_span_marker \<lparr>groups = 0, chars = 0\<rparr>
       = Inr (ex_span_marker_fixed, \<lparr>groups = 1, chars = 2\<rparr>)
   \<and> \<not> has_malformed ex_count5_tail3 \<and> height ex_count5_tail3 + 2 \<le> 900
   \<and> fix_element 900 ex_count5_tail3 \<lparr>groups = 0, chars = 0\<rparr>
       = Inr (ex_count5_tail3_fixed, \<lparr>groups = 2, chars = 7\<rparr>)
   \<and> \<not> has_malformed ex_adjacent \<and> height ex_adjacent + 2 \<le> 900
   \<and> fix_element 900 ex_adjacent \<lparr>groups = 0, chars = 0\<rparr>
       = Inr (ex_adjacent_fixed, \<lparr>groups = 4, chars = 5\<rparr>)"
proof -
  have h: "height ex_span_marker + 2 \<le> 900" "height ex_count5_tail3 + 2 \<le> 900"
    "height ex_adjacent + 2 \<le> 900"
    by (simp_all add: example_heights)
  have s1: "ex_span_marker_fixed = spec_fix ex_span_marker" "(1, 2) = spec_stats ex_span_marker"
    using C2_marker_removal [where root = ex_span_marker and n = 900
        and root' = ex_span_marker_fixed and g = 1 and c = 2] eval_span_marker
    by blast+
  have s2: "ex_count5_tail3_fixed = spec_fix ex_count5_tail3"
    "(2, 7) = spec_stats ex_count5_tail3"
    using C2_marker_removal [where root = ex_count5_tail3 and n = 900
        and root' = ex_count5_tail3_fixed and g = 2 and c = 7] eval_count5
    by blast+
  have s3: "ex_adjacent_fixed = spec_fix ex_adjacent" "(4, 5) = spec_stats ex_adjacent"
    using C2_marker_removal [where root = ex_adjacent and n = 900
        and root' = ex_adjacent_fixed and g = 4 and c = 5] eval_adjacent
    by blast+
  have "fix_element 900 ex_span_marker \<lparr>groups = 0, chars = 0\<rparr>
       = Inr (spec_fix ex_span_marker, bump \<lparr>groups = 0, chars = 0\<rparr> (spec_stats ex_span_marker))"
    using C2_marker_removal [where e = ex_span_marker and n = 900
        and st = "\<lparr>groups = 0, chars = 0\<rparr>"] example_markers(3) h(1)
    by blast
  then have r1: "fix_element 900 ex_span_marker \<lparr>groups = 0, chars = 0\<rparr>
       = Inr (ex_span_marker_fixed, \<lparr>groups = 1, chars = 2\<rparr>)"
    unfolding s1 [symmetric] by (simp add: bump_def)
  have "fix_element 900 ex_count5_tail3 \<lparr>groups = 0, chars = 0\<rparr>
       = Inr (spec_fix ex_count5_tail3, bump \<lparr>groups = 0, chars = 0\<rparr> (spec_stats ex_count5_tail3))"
    using C2_marker_removal [where e = ex_count5_tail3 and n = 900
        and st = "\<lparr>groups = 0, chars = 0\<rparr>"] example_markers(1) h(2)
    by blast
  then have r2: "fix_element 900 ex_count5_tail3 \<lparr>groups = 0, chars = 0\<rparr>
       = Inr (ex_count5_tail3_fixed, \<lparr>groups = 2, chars = 7\<rparr>)"
    unfolding s2 [symmetric] by (simp add: bump_def)
  have "fix_element 900 ex_adjacent \<lparr>groups = 0, chars = 0\<rparr>
       = Inr (spec_fix ex_adjacent, bump \<lparr>groups = 0, chars = 0\<rparr> (spec_stats ex_adjacent))"
    using C2_marker_removal [where e = ex_adjacent and n = 900
        and st = "\<lparr>groups = 0, chars = 0\<rparr>"] example_markers(2) h(3)
    by blast
  then have r3: "fix_element 900 ex_adjacent \<lparr>groups = 0, chars = 0\<rparr>
       = Inr (ex_adjacent_fixed, \<lparr>groups = 4, chars = 5\<rparr>)"
    unfolding s3 [symmetric] by (simp add: bump_def)
  from r1 r2 r3 h example_markers(1,2,3) show ?thesis by blast
qed

section \<open>The claims about the dispatch\<close>

lemma ascii_lower_ascii:
  assumes "map ascii_lower ext = target" "list_all (\<lambda>c. c < 128) target"
  shows "list_all (\<lambda>c. c < 128) ext"
proof -
  have "c < 128" if "c \<in> set ext" for c
  proof -
    from that assms(1) have "ascii_lower c \<in> set target" by auto
    with assms(2) have "ascii_lower c < 128" by (simp add: list_all_iff)
    then show ?thesis by (simp add: ascii_lower_def split: if_splits)
  qed
  then show ?thesis by (simp add: list_all_iff)
qed

lemma py_lower_ascii:
  assumes "map ascii_lower ext = target" "list_all (\<lambda>c. c < 128) target"
  shows "py_lower do_lower ext = target"
  using ascii_lower_ascii [OF assms] assms(1) by (simp add: py_lower_def)

lemma ext_ascii:
  "list_all (\<lambda>c. c < 128) (asc ''.docx'')" "list_all (\<lambda>c. c < 128) (asc ''.odt'')"
  "asc ''.odt'' \<noteq> asc ''.docx''"
  by (simp_all add: asc_def)

text \<open>
  Claim C8. When the lower-cased extension of the input path is neither \<^verbatim>\<open>.docx\<close> nor
  \<^verbatim>\<open>.odt\<close>, \<^verbatim>\<open>fix_file\<close> raises \<^verbatim>\<open>ValueError\<close>; neither pipeline runs, and the
  file system is as it was.
\<close>

theorem C8_unsupported_extension:
  assumes "py_lower do_lower (splitext_ext pf inp) \<noteq> asc ''.docx''"
    and "py_lower do_lower (splitext_ext pf inp) \<noteq> asc ''.odt''"
  shows "fix_file pf do_lower fix_docx fix_odt inp out w = (Inl ValueError, w)"
  using assms by (simp add: fix_file_def)

theorem C8_unsupported_extension_witness:
  "py_lower id (splitext_ext Posix (asc ''notes.txt'')) = asc ''.txt''
   \<and> fix_file Posix id (\<lambda>i out w. (Inr (1::nat), Suc w)) (\<lambda>i out w. (Inr 2, Suc w))
         (asc ''notes.txt'') (asc ''out.txt'') (0::nat)
       = (Inl ValueError, 0)"
proof -
  have e: "py_lower id (splitext_ext Posix (asc ''notes.txt'')) = asc ''.txt''"
    by (simp add: py_lower_def splitext_ext_def rfind_def ascii_lower_def asc_def)
  have "asc ''.txt'' \<noteq> asc ''.docx''" "asc ''.txt'' \<noteq> asc ''.odt''"
    by (simp_all add: asc_def)
  with e have "py_lower id (splitext_ext Posix (asc ''notes.txt'')) \<noteq> asc ''.docx''"
    and "py_lower id (splitext_ext Posix (asc ''notes.txt'')) \<noteq> asc ''.odt''"
    by simp_all
  from C8_unsupported_extension [OF this] e show ?thesis by simp
qed

text \<open>
  Claim C10. An extension that lower-cases to \<^verbatim>\<open>.docx\<close> sends the call to the DOCX
  pipeline, one that lower-cases to \<^verbatim>\<open>.odt\<close> to the ODT pipeline. Lowering the letters
  A to Z is enough for that, so \<^verbatim>\<open>.DOCX\<close> and \<^verbatim>\<open>.Odt\<close> are accepted.
\<close>

theorem C10_case_insensitive_extension:
  "(py_lower do_lower (splitext_ext pf inp) = asc ''.docx'' \<longrightarrow>
      fix_file pf do_lower fix_docx fix_odt inp out w = fix_docx inp out w)
   \<and> (py_lower do_lower (splitext_ext pf inp) = asc ''.odt'' \<longrightarrow>
        fix_file pf do_lower fix_docx fix_odt inp out w = fix_odt inp out w)
   \<and> (map ascii_lower (splitext_ext pf inp) = asc ''.docx'' \<longrightarrow>
        fix_file pf do_lower fix_docx fix_odt inp out w = fix_docx inp out w)
   \<and> (map ascii_lower (splitext_ext pf inp) = asc ''.odt'' \<longrightarrow>
        fix_file pf do_lower fix_docx fix_odt inp out w = fix_odt inp out w)"
proof -
  have a: "py_lower do_lower (splitext_ext pf inp) = asc ''.docx'' \<Longrightarrow>
      fix_file pf do_lower fix_docx fix_odt inp out w = fix_docx inp out w"
    by (simp add: fix_file_def)
  have b: "py_lower do_lower (splitext_ext pf inp) = asc ''.odt'' \<Longrightarrow>
        fix_file pf do_lower fix_docx fix_odt inp out w = fix_odt inp out w"
    by (simp add: fix_file_def ext_ascii(3))
  show ?thesis
    using a b py_lower_ascii [OF _ ext_ascii(1), of "splitext_ext pf inp" do_lower]
      py_lower_ascii [OF _ ext_ascii(2), of "splitext_ext pf inp" do_lower]
    by blast
qed

theorem C10_case_insensitive_extension_witness:
  "splitext_ext Windows (asc ''C:/docs/Report.DOCX'') = asc ''.DOCX''
   \<and> fix_file Windows id (\<lambda>i out w. (Inr (1::nat), Suc w)) (\<lambda>i out w. (Inr 2, Suc w))
         (asc ''C:/docs/Report.DOCX'') (asc ''out.docx'') (0::nat)
       = (Inr 1, 1)
   \<and> splitext_ext Posix (asc ''letter.Odt'') = asc ''.Odt''
   \<and> fix_file Posix id (\<lambda>i out w. (Inr (1::nat), Suc w)) (\<lambda>i out w. (Inr 2, Suc w))
         (asc ''letter.Odt'') (asc ''out.odt'') (0::nat)
       = (Inr 2, 1)"
proof -
  have e1: "splitext_ext Windows (asc ''C:/docs/Report.DOCX'') = asc ''.DOCX''"
    by (simp add: splitext_ext_def rfind_def asc_def)
  have e2: "splitext_ext Posix (asc ''letter.Odt'') = asc ''.Odt''"
    by (simp add: splitext_ext_def rfind_def asc_def)
  have l1: "map ascii_lower (splitext_ext Windows (asc ''C:/docs/Report.DOCX'')) = asc ''.docx''"
    unfolding e1 by (simp add: ascii_lower_def asc_def)
  have l2: "map ascii_lower (splitext_ext Posix (asc ''letter.Odt'')) = asc ''.odt''"
    unfolding e2 by (simp add: ascii_lower_def asc_def)
  from C10_case_insensitive_extension [where pf = Windows and inp = "asc ''C:/docs/Report.DOCX''"
      and do_lower = id and fix_docx = "\<lambda>i out w. (Inr (1::nat), Suc w)"
      and fix_odt = "\<lambda>i out w. (Inr 2, Suc w)" and out = "asc ''out.docx''" and w = "0::nat"] l1
  have "fix_file Windows id (\<lambda>i out w. (Inr (1::nat), Suc w)) (\<lambda>i out w. (Inr 2, Suc w))
         (asc ''C:/docs/Report.DOCX'') (asc ''out.docx'') (0::nat) = (Inr 1, 1)"
    by simp
  moreover
  from C10_case_insensitive_extension [where pf = Posix and inp = "asc ''letter.Odt''"
      and do_lower = id and fix_docx = "\<lambda>i out w. (Inr (1::nat), Suc w)"
      and fix_odt = "\<lambda>i out w. (Inr 2, Suc w)" and out = "asc ''out.odt''" and w = "0::nat"] l2
  have "fix_file Posix id (\<lambda>i out w. (Inr (1::nat), Suc w)) (\<lambda>i out w. (Inr 2, Suc w))
         (asc ''letter.Odt'') (asc ''out.odt'') (0::nat) = (Inr 2, 1)"
    by simp
  ultimately show ?thesis using e1 e2 by blast
qed

end
